theory Spec2Isabelle
  imports Main "HOL-Library.Multiset"
begin

section \<open>The Sudoku engine of Matrix-Sudoku (js/sudoku-engine.js)\<close>

subsection \<open>Grids\<close>

text \<open>
  A grid is the JavaScript array of nine arrays of nine numbers that the constructor
  builds (\<^verbatim>\<open>Array(9).fill().map(() => Array(9).fill(0))\<close>); 0 is an empty cell.
  The engine never checks the shape: on a grid with a missing row the source throws a
  TypeError and on a short row it reads \<^verbatim>\<open>undefined\<close>. Every theorem below is about
  grids of the shape \<open>wf_grid\<close> and coordinates below 9, where every access of the
  source is in range.
\<close>

type_synonym grid = "nat list list"

definition wf_grid :: "grid \<Rightarrow> bool" where
  "wf_grid g = (length g = 9 \<and> list_all (\<lambda>row. length row = 9) g)"

definition in_range :: "grid \<Rightarrow> bool" where
  "in_range g = list_all (list_all (\<lambda>v. v \<le> 9)) g"

definition empty_grid :: grid where
  "empty_grid = replicate 9 (replicate 9 0)"

text \<open>
  \<^verbatim>\<open>grid[row][col] === v\<close>: strict equality with a number is false for the
  \<^verbatim>\<open>undefined\<close> read outside the array.
\<close>

definition cell_is :: "grid \<Rightarrow> nat \<Rightarrow> nat \<Rightarrow> nat \<Rightarrow> bool" where
  "cell_is g row col v = (row < length g \<and> col < length (g ! row) \<and> g ! row ! col = v)"

text \<open>\<^verbatim>\<open>grid[row][col] = v\<close>\<close>

definition set_cell :: "grid \<Rightarrow> nat \<Rightarrow> nat \<Rightarrow> nat \<Rightarrow> grid" where
  "set_cell g row col v = g[row := (g ! row)[col := v]]"

text \<open>
  The scan order of \<^verbatim>\<open>for (row = 0; row < 9; row++) for (col = 0; col < 9; col++)\<close>.
\<close>

definition cells :: "(nat \<times> nat) list" where
  "cells = List.product [0..<9] [0..<9]"

subsection \<open>findEmptyCell, isValidMove\<close>

definition findEmptyCell :: "grid \<Rightarrow> (nat \<times> nat) option" where
  "findEmptyCell g = find (\<lambda>(row, col). cell_is g row col 0) cells"

definition isValidMove :: "grid \<Rightarrow> nat \<Rightarrow> nat \<Rightarrow> nat \<Rightarrow> bool" where
  "isValidMove g row col num =
     (if list_ex (\<lambda>x. cell_is g row x num) [0..<9] then False
      else if list_ex (\<lambda>x. cell_is g x col num) [0..<9] then False
      else
        let startRow = row - row mod 3; startCol = col - col mod 3
        in if list_ex (\<lambda>i. list_ex (\<lambda>j. cell_is g (i + startRow) (j + startCol) num) [0..<3]) [0..<3]
           then False
           else True)"

subsection \<open>validatePuzzle, isComplete\<close>

record validation =
  isValid :: bool
  errors :: "(nat \<times> nat \<times> nat) list"

text \<open>
  The body of the double loop of \<^verbatim>\<open>validatePuzzle\<close>: the cell is cleared, checked
  and written back. The state is the grid (mutated in place by the source) and the
  list of errors.
\<close>

definition validate_cell :: "nat \<times> nat \<Rightarrow> grid \<times> (nat \<times> nat \<times> nat) list \<Rightarrow> grid \<times> (nat \<times> nat \<times> nat) list" where
  "validate_cell = (\<lambda>(row, col) (g, errs).
     if \<not> cell_is g row col 0 then
       let num = g ! row ! col;
           g1 = set_cell g row col 0;
           errs' = (if \<not> isValidMove g1 row col num then errs @ [(row, col, num)] else errs);
           g2 = set_cell g1 row col num
       in (g2, errs')
     else (g, errs))"

text \<open>The result of \<^verbatim>\<open>validatePuzzle\<close> and the grid as the call leaves it.\<close>

definition validatePuzzle :: "grid \<Rightarrow> validation \<times> grid" where
  "validatePuzzle g =
     (let (g', errs) = fold validate_cell cells (g, [])
      in (\<lparr>isValid = (length errs = 0), errors = errs\<rparr>, g'))"

definition isComplete :: "grid \<Rightarrow> bool" where
  "isComplete g =
     (if list_ex (\<lambda>(row, col). cell_is g row col 0) cells then False
      else isValid (fst (validatePuzzle g)))"

subsection \<open>getHint, getPossibleValues\<close>

text \<open>
  The fields of the class that the operations read and write. The table
  \<^verbatim>\<open>difficultySettings\<close> is never assigned after the constructor and is a constant below.
\<close>

record engine =
  grid :: grid
  solution :: grid
  initialGrid :: grid
  difficulty :: string

text \<open>The hint object \<^verbatim>\<open>{ row, col, value }\<close>; \<open>None\<close> is \<^verbatim>\<open>null\<close>.\<close>

record hint =
  hint_row :: nat
  hint_col :: nat
  hint_value :: nat

definition getPossibleValues :: "grid \<Rightarrow> nat \<Rightarrow> nat \<Rightarrow> nat list" where
  "getPossibleValues g row col = filter (\<lambda>num. isValidMove g row col num) [1..<10]"

text \<open>
  The loop \<^verbatim>\<open>for (let cell of emptyCells)\<close> with its state \<^verbatim>\<open>bestCell\<close> and
  \<^verbatim>\<open>minPossibilities\<close>; the \<^verbatim>\<open>break\<close> ends the scan with the current cell.
\<close>

fun hint_scan :: "grid \<Rightarrow> (nat \<times> nat) list \<Rightarrow> (nat \<times> nat) option \<Rightarrow> nat \<Rightarrow> (nat \<times> nat) option" where
  "hint_scan g [] bestCell minPossibilities = bestCell"
| "hint_scan g (cell # rest) bestCell minPossibilities =
     (let possibilities = getPossibleValues g (fst cell) (snd cell)
      in if length possibilities < minPossibilities then
           (if length possibilities = 1 then Some cell
            else hint_scan g rest (Some cell) (length possibilities))
         else hint_scan g rest bestCell minPossibilities)"

definition getHint :: "engine \<Rightarrow> grid \<Rightarrow> hint option" where
  "getHint e g =
     (let emptyCells = filter (\<lambda>(row, col). cell_is g row col 0) cells
      in if length emptyCells = 0 then None
         else case hint_scan g emptyCells None 10 of
                Some (row, col) \<Rightarrow> Some \<lparr>hint_row = row, hint_col = col, hint_value = solution e ! row ! col\<rparr>
              | None \<Rightarrow> None)"

text \<open>The empty cells of a grid in scan order: the list \<^verbatim>\<open>emptyCells\<close> that getHint builds.\<close>

definition emptyCells :: "grid \<Rightarrow> (nat \<times> nat) list" where
  "emptyCells g = filter (\<lambda>(row, col). cell_is g row col 0) cells"

subsection \<open>Basic facts about grids\<close>

lemma cell_is_wf [simp]:
  "wf_grid g \<Longrightarrow> row < 9 \<Longrightarrow> col < 9 \<Longrightarrow> cell_is g row col v = (g ! row ! col = v)"
  by (auto simp: cell_is_def wf_grid_def list_all_length)

lemma wf_set_cell [simp]: "wf_grid g \<Longrightarrow> wf_grid (set_cell g row col v)"
  unfolding wf_grid_def set_cell_def list_all_length
  by (cases "row < length g") (auto simp: nth_list_update list_update_beyond)

lemma nth_set_cell:
  "wf_grid g \<Longrightarrow> r < 9 \<Longrightarrow> c < 9 \<Longrightarrow>
   set_cell g row col v ! r ! c = (if r = row \<and> c = col then v else g ! r ! c)"
  unfolding wf_grid_def set_cell_def list_all_length
  by (cases "row < length g") (auto simp: nth_list_update list_update_beyond)

lemma set_cell_restore:
  "set_cell (set_cell g row col w) row col (g ! row ! col) = g"
proof (cases "row < length g")
  case True
  then show ?thesis by (simp add: set_cell_def list_update_id)
next
  case False
  then show ?thesis by (simp add: set_cell_def list_update_beyond)
qed

lemma cells_set: "set cells = {(r, c). r < 9 \<and> c < 9}"
  by (auto simp: cells_def)

lemma isValidMove_occupied:
  assumes "row < 9" "col < 9" "cell_is g row col v"
  shows "\<not> isValidMove g row col v"
  using assms by (auto simp: isValidMove_def list_ex_iff)

lemma validate_cell_grid:
  "fst (validate_cell rc (g, errs)) = g"
  by (cases rc) (simp add: validate_cell_def Let_def set_cell_restore)

subsection \<open>The random source, shuffleArray, solvePuzzle\<close>

text \<open>
  \<^verbatim>\<open>Math.random()\<close> is the only source of nondeterminism. The model takes the sequence of
  values it will return as a parameter: \<open>rs 0\<close> stands for the next value, and
  \<^verbatim>\<open>Math.floor(Math.random() * n)\<close> is any number below \<open>n\<close>.
\<close>

type_synonym rng = "nat \<Rightarrow> nat"

definition random_below :: "nat \<Rightarrow> rng \<Rightarrow> nat \<times> rng" where
  "random_below n rs = (rs 0 mod n, \<lambda>i. rs (Suc i))"

fun shuffle_loop :: "nat \<Rightarrow> nat list \<Rightarrow> rng \<Rightarrow> nat list \<times> rng" where
  "shuffle_loop 0 shuffled rs = (shuffled, rs)"
| "shuffle_loop (Suc k) shuffled rs =
     (let i = Suc k;
          (j, rs') = random_below (i + 1) rs;
          shuffled' = shuffled[i := shuffled ! j, j := shuffled ! i]
      in shuffle_loop k shuffled' rs')"

definition shuffleArray :: "nat list \<Rightarrow> rng \<Rightarrow> nat list \<times> rng" where
  "shuffleArray array rs = shuffle_loop (length array - 1) array rs"

lemma shuffle_loop_mset:
  "k < length xs \<Longrightarrow> mset (fst (shuffle_loop k xs rs)) = mset xs"
proof (induction k arbitrary: xs rs)
  case 0
  then show ?case by simp
next
  case (Suc k)
  let ?j = "rs 0 mod (Suc k + 1)"
  have j: "?j < length xs" using Suc.prems by (metis Suc_eq_plus1 less_Suc_eq_le mod_less_divisor order_le_less_trans zero_less_Suc not_less)
  let ?xs = "xs[Suc k := xs ! ?j, ?j := xs ! Suc k]"
  have "mset ?xs = mset xs" using Suc.prems j by (simp add: mset_swap)
  moreover have "k < length ?xs" using Suc.prems by simp
  ultimately have "mset (fst (shuffle_loop k ?xs (\<lambda>i. rs (Suc i)))) = mset xs"
    using Suc.IH [of ?xs] by simp
  then show ?case by (simp add: random_below_def Let_def)
qed

lemma shuffleArray_mset: "mset (fst (shuffleArray xs rs)) = mset xs"
proof (cases xs)
  case Nil
  then show ?thesis by (simp add: shuffleArray_def)
next
  case (Cons a list)
  then show ?thesis unfolding shuffleArray_def by (intro shuffle_loop_mset) simp
qed

lemma shuffleArray_set: "set (fst (shuffleArray xs rs)) = set xs"
  using shuffleArray_mset [of xs rs] by (metis set_mset_mset)

text \<open>
  The Fisher-Yates loop runs \<open>i\<close> from \<open>length - 1\<close> down to 1 and swaps the entries at
  \<open>i\<close> and \<open>j\<close>; the result is a permutation of the array.
\<close>

lemma cell_is_set_cell:
  "cell_is (set_cell g row col num) r c v =
     (if r = row \<and> c = col then row < length g \<and> col < length (g ! row) \<and> num = v
      else cell_is g r c v)"
  unfolding cell_is_def set_cell_def
  by (cases "row < length g") (auto simp: nth_list_update list_update_beyond)

lemma findEmptyCell_Some:
  assumes "findEmptyCell g = Some (row, col)"
  shows "row < 9 \<and> col < 9 \<and> cell_is g row col 0 \<and> (row, col) \<in> set cells"
proof -
  from assms obtain i where "i < length cells" "cells ! i = (row, col)" "cell_is g row col 0"
    unfolding findEmptyCell_def find_Some_iff by auto
  then have "(row, col) \<in> set cells \<and> cell_is g row col 0" by (metis nth_mem)
  then show ?thesis by (simp add: cells_set)
qed

lemma findEmptyCell_None: "(findEmptyCell g = None) = (emptyCells g = [])"
  unfolding findEmptyCell_def emptyCells_def find_None_iff filter_empty_conv by auto

lemma emptyCells_set_cell:
  assumes "cell_is g row col 0" "num \<noteq> 0"
  shows "emptyCells (set_cell g row col num) = filter (\<lambda>p. p \<noteq> (row, col)) (emptyCells g)"
proof -
  have "cell_is (set_cell g row col num) r c 0 = (cell_is g r c 0 \<and> (r, c) \<noteq> (row, col))" for r c
    using assms by (auto simp: cell_is_set_cell)
  then show ?thesis unfolding emptyCells_def filter_filter
    by (intro filter_cong refl) auto
qed

lemma fill_decreases:
  assumes "findEmptyCell g = Some (row, col)" "num \<noteq> 0"
  shows "length (emptyCells (set_cell g row col num)) < length (emptyCells g)"
proof -
  from findEmptyCell_Some [OF assms(1)] have e: "cell_is g row col 0" "(row, col) \<in> set cells" by auto
  then have "(row, col) \<in> set (emptyCells g)" by (simp add: emptyCells_def)
  then show ?thesis unfolding emptyCells_set_cell [OF e(1) assms(2)]
    by (intro length_filter_less [of "(row, col)"]) auto
qed

lemma candidates_pos:
  assumes "(numbers, rs') = shuffleArray [Suc 0, 2, 3, 4, 5, 6, 7, 8, 9] rs" "num \<in> set numbers"
  shows "0 < num"
proof -
  from assms(1) have "numbers = fst (shuffleArray [Suc 0, 2, 3, 4, 5, 6, 7, 8, 9] rs)" by (metis fst_conv)
  with assms(2) have "num \<in> set [Suc 0, 2, 3, 4, 5, 6, 7, 8, 9]" by (simp only: shuffleArray_set)
  then show ?thesis by auto
qed

text \<open>
  The solver updates the grid in place and undoes the update when a branch fails
  (\<^verbatim>\<open>grid[row][col] = 0\<close>). The model passes the grid by value: a failed call hands
  nothing back, and the loop goes on from the caller's grid \<open>g\<close>, which has 0 at the
  cell that \<^verbatim>\<open>findEmptyCell\<close> chose, so that clearing the cell again gives \<open>g\<close> back
  (\<open>set_cell_restore\<close>). The result \<open>Some g'\<close> is \<^verbatim>\<open>return true\<close> with the array holding
  \<open>g'\<close>; \<open>None\<close> is \<^verbatim>\<open>return false\<close> with the array as it was at the call. The loop over
  the candidates is a fold whose state says whether the function has already returned.
  Each call fills a cell that was empty, which is the termination argument.
\<close>

function solvePuzzle :: "grid \<Rightarrow> rng \<Rightarrow> grid option \<times> rng" where
  "solvePuzzle g rs =
     (case findEmptyCell g of
        None \<Rightarrow> (Some g, rs)
      | Some (row, col) \<Rightarrow>
          (let (numbers, rs1) = shuffleArray [1, 2, 3, 4, 5, 6, 7, 8, 9] rs
           in fold (\<lambda>num (result, rs').
                      if result \<noteq> None then (result, rs')
                      else if isValidMove g row col num then solvePuzzle (set_cell g row col num) rs'
                      else (None, rs'))
                numbers (None, rs1)))"
  by pat_completeness auto
termination
  by (relation "measure (\<lambda>(g, rs). length (emptyCells g))")
     (auto intro!: fill_decreases intro: candidates_pos)

subsection \<open>findAllSolutions, hasUniqueSolution\<close>

text \<open>
  The result is the returned flag ("continue searching") and the array \<^verbatim>\<open>solutions\<close> as
  the call leaves it; on every path the source writes 0 back to the cell it filled, so
  the grid is passed by value. A flag \<open>False\<close> in the state of the fold is the
  \<^verbatim>\<open>return false\<close> inside the loop.
\<close>

function findAllSolutions :: "grid \<Rightarrow> grid list \<Rightarrow> nat \<Rightarrow> bool \<times> grid list" where
  "findAllSolutions g solutions maxSolutions =
     (if length solutions \<ge> maxSolutions then (False, solutions)
      else case findEmptyCell g of
        None \<Rightarrow> (let solutions' = solutions @ [g] in (length solutions' < maxSolutions, solutions'))
      | Some (row, col) \<Rightarrow>
          fold (\<lambda>num (continue, solutions').
                  if \<not> continue then (False, solutions')
                  else if isValidMove g row col num
                  then findAllSolutions (set_cell g row col num) solutions' maxSolutions
                  else (True, solutions'))
            [1..<10] (True, solutions))"
  by pat_completeness auto
termination
  by (relation "measure (\<lambda>(g, solutions, maxSolutions). length (emptyCells g))")
     (auto intro!: fill_decreases)

definition hasUniqueSolution :: "grid \<Rightarrow> bool" where
  "hasUniqueSolution g =
     (let testGrid = g;
          (continue, solutions) = findAllSolutions testGrid [] 2
      in length solutions = 1)"



subsection \<open>solvePuzzleWithSteps, solveCurrentPuzzle\<close>

text \<open>
  A step \<^verbatim>\<open>{ row, col, value, type }\<close>, and the result
  \<^verbatim>\<open>{ success, solution, steps }\<close> of solveCurrentPuzzle; its fields \<^verbatim>\<open>solution\<close> and
  \<^verbatim>\<open>steps\<close> are \<open>solved_grid\<close> and \<open>place_steps\<close> here (\<open>solution\<close> is the engine's
  field), and \<open>None\<close> is \<^verbatim>\<open>null\<close>.
\<close>

record step =
  step_row :: nat
  step_col :: nat
  step_value :: nat
  step_type :: string

function solvePuzzleWithSteps :: "grid \<Rightarrow> step list \<Rightarrow> grid option \<times> step list" where
  "solvePuzzleWithSteps g steps =
     (case findEmptyCell g of
        None \<Rightarrow> (Some g, steps)
      | Some (row, col) \<Rightarrow>
          fold (\<lambda>num (result, steps').
                  if result \<noteq> None then (result, steps')
                  else if isValidMove g row col num then
                    (case solvePuzzleWithSteps (set_cell g row col num)
                            (steps' @ [\<lparr>step_row = row, step_col = col, step_value = num, step_type = ''place''\<rparr>]) of
                       (Some g', steps'') \<Rightarrow> (Some g', steps'')
                     | (None, steps'') \<Rightarrow>
                         (None, steps'' @ [\<lparr>step_row = row, step_col = col, step_value = 0, step_type = ''backtrack''\<rparr>]))
                  else (None, steps'))
            [1..<10] (None, steps))"
  by pat_completeness auto
termination
  by (relation "measure (\<lambda>(g, steps). length (emptyCells g))")
     (auto intro!: fill_decreases)

record solve_result =
  success :: bool
  solved_grid :: "grid option"
  place_steps :: "step list"

definition solveCurrentPuzzle :: "engine \<Rightarrow> solve_result" where
  "solveCurrentPuzzle e =
     (let gridCopy = grid e;
          (solved, steps) = solvePuzzleWithSteps gridCopy []
      in \<lparr>success = (solved \<noteq> None), solved_grid = solved,
          place_steps = filter (\<lambda>s. step_type s = ''place'') steps\<rparr>)"

subsection \<open>shuffleGrid, generateCompleteGrid\<close>

text \<open>
  One iteration of each of the two outer loops of \<^verbatim>\<open>shuffleGrid\<close> (the source's loop
  variable \<^verbatim>\<open>group\<close> is \<open>grp\<close>), with the grid and the random source as state.
\<close>

definition shuffle_rows :: "nat \<Rightarrow> grid \<times> rng \<Rightarrow> grid \<times> rng" where
  "shuffle_rows grp = (\<lambda>(g, rs).
     let rows = [grp * 3, grp * 3 + 1, grp * 3 + 2];
         (shuffledRows, rs') = shuffleArray rows rs;
         tempGrid = g
     in (fold (\<lambda>i g'. g'[grp * 3 + i := tempGrid ! (shuffledRows ! i)]) [0..<3] g, rs'))"

definition shuffle_cols :: "nat \<Rightarrow> grid \<times> rng \<Rightarrow> grid \<times> rng" where
  "shuffle_cols grp = (\<lambda>(g, rs).
     let cols = [grp * 3, grp * 3 + 1, grp * 3 + 2];
         (shuffledCols, rs') = shuffleArray cols rs
     in (fold (\<lambda>row g'.
                 let tempRow = g' ! row
                 in fold (\<lambda>i g''. set_cell g'' row (grp * 3 + i) (tempRow ! (shuffledCols ! i))) [0..<3] g')
           [0..<9] g, rs'))"

definition shuffleGrid :: "grid \<Rightarrow> rng \<Rightarrow> grid \<times> rng" where
  "shuffleGrid g rs = fold shuffle_cols [0..<3] (fold shuffle_rows [0..<3] (g, rs))"

text \<open>
  \<^verbatim>\<open>generateCompleteGrid\<close> ignores what \<^verbatim>\<open>solvePuzzle\<close> returns; after a \<^verbatim>\<open>false\<close> the array
  would still be the empty grid.
\<close>

definition generateCompleteGrid :: "engine \<Rightarrow> rng \<Rightarrow> engine \<times> rng" where
  "generateCompleteGrid e rs =
     (let (result, rs1) = solvePuzzle empty_grid rs;
          g1 = (case result of Some g' \<Rightarrow> g' | None \<Rightarrow> empty_grid);
          (g2, rs2) = shuffleGrid g1 rs1
      in (e\<lparr>grid := g2\<rparr>, rs2))"

subsection \<open>createPuzzle, generatePuzzle\<close>

text \<open>
  \<^verbatim>\<open>this.difficultySettings[this.difficulty].clues\<close> has three outcomes. For one of the four
  keys of the table it is the number of clues. For any other string the lookup goes to
  the prototype of the object literal: a name that \<^verbatim>\<open>Object.prototype\<close> defines yields
  a value without a property \<^verbatim>\<open>clues\<close>, so \<^verbatim>\<open>clues\<close> is \<^verbatim>\<open>undefined\<close>,
  \<^verbatim>\<open>cellsToRemove\<close> is \<^verbatim>\<open>NaN\<close>, the loop condition \<^verbatim>\<open>removed < NaN\<close> is false and the
  loop does not run. Every other name yields \<^verbatim>\<open>undefined\<close>, and reading \<^verbatim>\<open>.clues\<close> of
  it throws a TypeError.
\<close>

datatype js_error = TypeError

definition difficultySettings :: "string \<Rightarrow> nat option" where
  "difficultySettings d =
     (if d = ''easy'' then Some 45
      else if d = ''medium'' then Some 35
      else if d = ''hard'' then Some 25
      else if d = ''expert'' then Some 17
      else None)"

definition object_prototype_keys :: "string list" where
  "object_prototype_keys =
     [''constructor'', ''__proto__'', ''hasOwnProperty'', ''isPrototypeOf'', ''propertyIsEnumerable'',
      ''toLocaleString'', ''toString'', ''valueOf'', ''__defineGetter__'', ''__defineSetter__'',
      ''__lookupGetter__'', ''__lookupSetter__'']"

text \<open>
  The \<^verbatim>\<open>while\<close> loop of createPuzzle; its state is the grid, the counters
  \<^verbatim>\<open>attempts\<close> and \<^verbatim>\<open>removed\<close> and the random source, and it ends after at most 1000
  iterations.
\<close>

function createPuzzle_loop :: "nat \<Rightarrow> grid \<Rightarrow> nat \<Rightarrow> nat \<Rightarrow> rng \<Rightarrow> (grid \<times> nat \<times> nat) \<times> rng" where
  "createPuzzle_loop cellsToRemove g attempts removed rs =
     (if removed < cellsToRemove \<and> attempts < 1000 then
        (let (row, rs1) = random_below 9 rs;
             (col, rs2) = random_below 9 rs1
         in if \<not> cell_is g row col 0 then
              (let backup = g ! row ! col;
                   g1 = set_cell g row col 0
               in if hasUniqueSolution g1
                  then createPuzzle_loop cellsToRemove g1 (attempts + 1) (removed + 1) rs2
                  else createPuzzle_loop cellsToRemove (set_cell g1 row col backup) (attempts + 1) removed rs2)
            else createPuzzle_loop cellsToRemove g (attempts + 1) removed rs2)
      else ((g, attempts, removed), rs))"
  by pat_completeness auto
termination
  by (relation "measure (\<lambda>(cellsToRemove, g, attempts, removed, rs). 1000 - attempts)") auto

definition createPuzzle :: "engine \<Rightarrow> rng \<Rightarrow> (js_error + unit) \<times> engine \<times> rng" where
  "createPuzzle e rs =
     (case difficultySettings (difficulty e) of
        Some clues \<Rightarrow>
          (let cellsToRemove = 81 - clues;
               ((g, attempts, removed), rs') = createPuzzle_loop cellsToRemove (grid e) 0 0 rs
           in (Inr (), e\<lparr>grid := g\<rparr>, rs'))
      | None \<Rightarrow>
          if difficulty e \<in> set object_prototype_keys then (Inr (), e, rs)
          else (Inl TypeError, e, rs))"

text \<open>
  The object \<^verbatim>\<open>{ grid, solution, difficulty }\<close> that generatePuzzle returns. The parameter
  is \<open>None\<close> when the caller passes no difficulty (the default is \<^verbatim>\<open>'medium'\<close>). When
  createPuzzle throws, the engine keeps what the statements before it have written.
\<close>

record puzzle =
  puzzle_grid :: grid
  puzzle_solution :: grid
  puzzle_difficulty :: string

definition generatePuzzle :: "string option \<Rightarrow> engine \<Rightarrow> rng \<Rightarrow> (js_error + puzzle) \<times> engine \<times> rng" where
  "generatePuzzle arg e rs =
     (let d = (case arg of None \<Rightarrow> ''medium'' | Some d' \<Rightarrow> d');
          e1 = e\<lparr>difficulty := d\<rparr>;
          (e2, rs2) = generateCompleteGrid e1 rs;
          e3 = e2\<lparr>solution := grid e2\<rparr>
      in case createPuzzle e3 rs2 of
           (Inl err, e4, rs3) \<Rightarrow> (Inl err, e4, rs3)
         | (Inr u, e4, rs3) \<Rightarrow>
             (let e5 = e4\<lparr>initialGrid := grid e4\<rparr>
              in (Inr \<lparr>puzzle_grid = grid e5, puzzle_solution = solution e5, puzzle_difficulty = difficulty e5\<rparr>,
                  e5, rs3)))"

text \<open>The engine as the constructor leaves it.\<close>

definition new_engine :: engine where
  "new_engine = \<lparr>grid = empty_grid, solution = empty_grid, initialGrid = empty_grid, difficulty = ''medium''\<rparr>"

section \<open>The invariants of the data model\<close>

subsection \<open>Rows, columns and boxes\<close>

text \<open>
  The 27 units as lists of coordinates: nine rows, nine columns and the nine 3x3 boxes.
  A grid is \<open>consistent\<close> when no unit holds a value of 1..9 twice, \<open>solved\<close> when
  every unit holds each value of 1..9 exactly once, and \<open>completion g s\<close> says that the
  solved grid \<open>s\<close> agrees with \<open>g\<close> on every filled cell of \<open>g\<close>.
\<close>

definition unit_cells :: "(nat \<times> nat) list list" where
  "unit_cells =
     map (\<lambda>r. map (\<lambda>c. (r, c)) [0..<9]) [0..<9]
   @ map (\<lambda>c. map (\<lambda>r. (r, c)) [0..<9]) [0..<9]
   @ map (\<lambda>b. List.product [3 * (b div 3)..<3 * (b div 3) + 3] [3 * (b mod 3)..<3 * (b mod 3) + 3]) [0..<9]"

definition unit_values :: "grid \<Rightarrow> (nat \<times> nat) list \<Rightarrow> nat list" where
  "unit_values g u = map (\<lambda>(row, col). g ! row ! col) u"

definition consistent :: "grid \<Rightarrow> bool" where
  "consistent g = list_all (\<lambda>u. list_all (\<lambda>v. count_list (unit_values g u) v \<le> 1) [1..<10]) unit_cells"

definition solved :: "grid \<Rightarrow> bool" where
  "solved g = (wf_grid g \<and> list_all (\<lambda>u. list_all (\<lambda>v. count_list (unit_values g u) v = 1) [1..<10]) unit_cells)"

definition completion :: "grid \<Rightarrow> grid \<Rightarrow> bool" where
  "completion g s = (solved s \<and> list_all (\<lambda>(row, col). g ! row ! col \<noteq> 0 \<longrightarrow> s ! row ! col = g ! row ! col) cells)"

definition canonical :: grid where
  "canonical = [[5,3,4,6,7,8,9,1,2],[6,7,2,1,9,5,3,4,8],[1,9,8,3,4,2,5,6,7],
                [8,5,9,7,6,1,4,2,3],[4,2,6,8,5,3,7,9,1],[7,1,3,9,2,4,8,5,6],
                [9,6,1,5,3,7,2,8,4],[2,8,7,4,1,9,6,3,5],[3,4,5,2,8,6,1,7,9]]"

definition peers :: "nat \<times> nat \<Rightarrow> nat \<times> nat \<Rightarrow> bool" where
  "peers p q = (fst p = fst q \<or> snd p = snd q \<or> (fst p div 3 = fst q div 3 \<and> snd p div 3 = snd q div 3))"

lemma solved_canonical: "solved canonical"
  by code_simp

lemma validate_canonical: "fst (validatePuzzle canonical) = \<lparr>isValid = True, errors = []\<rparr>"
  by code_simp

lemma unit_cells_props: "list_all (\<lambda>u. distinct u \<and> length u = 9 \<and> list_all (\<lambda>(r,c). r < 9 \<and> c < 9) u) unit_cells"
  by code_simp

subsection \<open>Units and peers\<close>

definition cell_at :: "grid \<Rightarrow> nat \<times> nat \<Rightarrow> nat" where
  "cell_at g p = g ! fst p ! snd p"

definition pcons :: "grid \<Rightarrow> bool" where
  "pcons g = (\<forall>p\<in>set cells. \<forall>q\<in>set cells. p \<noteq> q \<and> peers p q \<and> cell_at g p \<noteq> 0 \<longrightarrow> cell_at g p \<noteq> cell_at g q)"

definition filled :: "grid \<Rightarrow> bool" where
  "filled g = (\<forall>p\<in>set cells. 1 \<le> cell_at g p \<and> cell_at g p \<le> 9)"

lemma count_list_le1:
  "distinct cs \<Longrightarrow> (count_list (map f cs) v \<le> 1) = (\<forall>p\<in>set cs. \<forall>q\<in>set cs. f p = v \<and> f q = v \<longrightarrow> p = q)"
proof (induction cs)
  case Nil
  then show ?case by simp
next
  case (Cons a cs)
  have z: "(count_list (map f cs) v = 0) = (\<forall>p\<in>set cs. f p \<noteq> v)"
    by (auto simp: count_list_0_iff)
  from Cons show ?case
    by (auto simp: z)
qed

lemma count_list_ge1:
  "(1 \<le> count_list (map f cs) v) = (\<exists>p\<in>set cs. f p = v)"
proof -
  have "(count_list (map f cs) v = 0) = (\<forall>p\<in>set cs. f p \<noteq> v)"
    by (auto simp: count_list_0_iff)
  then show ?thesis by (metis One_nat_def Suc_leI not_gr_zero not_less_eq_eq le_zero_eq)
qed

lemma count_list_eq1:
  "distinct cs \<Longrightarrow> (count_list (map f cs) v = 1) =
     ((\<exists>p\<in>set cs. f p = v) \<and> (\<forall>p\<in>set cs. \<forall>q\<in>set cs. f p = v \<and> f q = v \<longrightarrow> p = q))"
  using count_list_le1 [of cs f v] count_list_ge1 [of f cs v] by (metis le_antisym order_refl)

lemma unit_values_map: "unit_values g u = map (cell_at g) u"
  by (simp add: unit_values_def cell_at_def case_prod_beta)

lemma unit_cells_distinct: "u \<in> set unit_cells \<Longrightarrow> distinct u"
  using unit_cells_props by (simp add: list_all_iff)

lemma unit_cells_length: "u \<in> set unit_cells \<Longrightarrow> length u = 9"
  using unit_cells_props by (simp add: list_all_iff)

lemma unit_cells_sub: "u \<in> set unit_cells \<Longrightarrow> set u \<subseteq> set cells"
  using unit_cells_props by (auto simp: list_all_iff cells_set)

lemma in_box: "(3 * k \<le> r \<and> r < 3 * k + 3) = (r div 3 = k)" for r k :: nat
  by arith

lemma div3_less: "c < 9 \<Longrightarrow> c div 3 < 3" for c :: nat
  by arith

lemma box_index: "r < 9 \<Longrightarrow> c < 9 \<Longrightarrow> 3 * (r div 3) + c div 3 < 9
    \<and> (3 * (r div 3) + c div 3) div 3 = r div 3 \<and> (3 * (r div 3) + c div 3) mod 3 = c div 3" for r c :: nat
  using div3_less [of r] div3_less [of c] by simp

lemma bex_map_upt: "(\<exists>u\<in>set (map F [0..<n]). P u) = (\<exists>k<n. P (F k))"
  by auto

lemma row_mem: "((r, c) \<in> set (map (\<lambda>c. (k, c)) [0..<9])) = (r = k \<and> c < 9)"
  by auto

lemma col_mem: "((r, c) \<in> set (map (\<lambda>r. (r, k)) [0..<9])) = (c = k \<and> r < 9)"
  by auto

lemma box_mem: "((r, c) \<in> set (List.product [3 * a..<3 * a + 3] [3 * b..<3 * b + 3])) = (r div 3 = a \<and> c div 3 = b)"
  by (simp add: in_box)

lemma peers_units:
  assumes "p \<in> set cells" "q \<in> set cells"
  shows "peers p q = (\<exists>u\<in>set unit_cells. p \<in> set u \<and> q \<in> set u)"
proof -
  obtain r c where p: "p = (r, c)" by (cases p)
  obtain r' c' where q: "q = (r', c')" by (cases q)
  from assms have b: "r < 9" "c < 9" "r' < 9" "c' < 9" by (auto simp: p q cells_set)
  have rows: "(\<exists>u\<in>set (map (\<lambda>r. map (\<lambda>c. (r, c)) [0..<9]) [0..<9]). p \<in> set u \<and> q \<in> set u) = (r = r')"
    unfolding bex_map_upt p q row_mem using b by blast
  have cols: "(\<exists>u\<in>set (map (\<lambda>c. map (\<lambda>r. (r, c)) [0..<9]) [0..<9]). p \<in> set u \<and> q \<in> set u) = (c = c')"
    unfolding bex_map_upt p q col_mem using b by blast
  have boxes: "(\<exists>u\<in>set (map (\<lambda>b. List.product [3 * (b div 3)..<3 * (b div 3) + 3] [3 * (b mod 3)..<3 * (b mod 3) + 3]) [0..<9]). p \<in> set u \<and> q \<in> set u)
     = (r div 3 = r' div 3 \<and> c div 3 = c' div 3)" (is "?L = ?R")
    unfolding bex_map_upt p q box_mem
  proof
    assume "\<exists>k<9. (r div 3 = k div 3 \<and> c div 3 = k mod 3) \<and> r' div 3 = k div 3 \<and> c' div 3 = k mod 3"
    then show "r div 3 = r' div 3 \<and> c div 3 = c' div 3" by auto
  next
    assume R: "r div 3 = r' div 3 \<and> c div 3 = c' div 3"
    let ?b = "3 * (r div 3) + c div 3"
    have "?b < 9" "?b div 3 = r div 3" "?b mod 3 = c div 3"
      using box_index [OF b(1) b(2)] by auto
    with R show "\<exists>k<9. (r div 3 = k div 3 \<and> c div 3 = k mod 3) \<and> r' div 3 = k div 3 \<and> c' div 3 = k mod 3"
      by (intro exI [of _ ?b]) simp
  qed
  have "(\<exists>u\<in>set unit_cells. p \<in> set u \<and> q \<in> set u) = (r = r' \<or> c = c' \<or> (r div 3 = r' div 3 \<and> c div 3 = c' div 3))"
    unfolding unit_cells_def set_append bex_Un rows cols boxes ..
  then show ?thesis by (simp add: peers_def p q)
qed

lemma in_range_cell:
  assumes "wf_grid g" "in_range g" "p \<in> set cells"
  shows "cell_at g p \<le> 9"
  using assms by (auto simp: wf_grid_def in_range_def list_all_length cells_set cell_at_def)

lemma consistent_iff:
  "consistent g = (\<forall>u\<in>set unit_cells. \<forall>v\<in>{1..9}. \<forall>p\<in>set u. \<forall>q\<in>set u.
      cell_at g p = v \<and> cell_at g q = v \<longrightarrow> p = q)"
proof -
  have "set [1..<10] = {1..9::nat}" by auto
  then show ?thesis
    unfolding consistent_def list_all_iff unit_values_map
    by (intro ball_cong refl count_list_le1 unit_cells_distinct) simp_all
qed

lemma pcons_consistent: "pcons g \<Longrightarrow> consistent g"
  unfolding consistent_iff
proof (intro ballI impI)
  fix u v p q
  assume pc: "pcons g" and u: "u \<in> set unit_cells" and v: "v \<in> {1..9::nat}"
    and p: "p \<in> set u" and q: "q \<in> set u" and e: "cell_at g p = v \<and> cell_at g q = v"
  from u p q have pq: "p \<in> set cells" "q \<in> set cells" using unit_cells_sub by auto
  then have "peers p q" using peers_units u p q by blast
  with pc pq e v show "p = q" unfolding pcons_def by (metis atLeastAtMost_iff not_one_le_zero)
qed

lemma consistent_pcons:
  assumes "wf_grid g" "in_range g" "consistent g"
  shows "pcons g"
  unfolding pcons_def
proof (intro ballI impI notI)
  fix p q
  assume pq: "p \<in> set cells" "q \<in> set cells" and h: "p \<noteq> q \<and> peers p q \<and> cell_at g p \<noteq> 0"
    and e: "cell_at g p = cell_at g q"
  from h pq obtain u where u: "u \<in> set unit_cells" "p \<in> set u" "q \<in> set u"
    using peers_units by blast
  have "cell_at g p \<in> {1..9}" using h in_range_cell [OF assms(1,2) pq(1)] by auto
  with assms(3) u e have "p = q" unfolding consistent_iff by metis
  with h show False by simp
qed

lemma solved_unfold:
  "solved g = (wf_grid g \<and> (\<forall>u\<in>set unit_cells. \<forall>v\<in>{1..9}.
       (\<exists>p\<in>set u. cell_at g p = v) \<and>
       (\<forall>p\<in>set u. \<forall>q\<in>set u. cell_at g p = v \<and> cell_at g q = v \<longrightarrow> p = q)))"
proof -
  have "set [1..<10] = {1..9::nat}" by auto
  then show ?thesis
    unfolding solved_def list_all_iff unit_values_map
    by (intro arg_cong2 [where f = "(\<and>)"] ball_cong refl count_list_eq1 unit_cells_distinct) simp_all
qed

lemma solved_consistent: "solved g \<Longrightarrow> consistent g"
  unfolding solved_unfold consistent_iff by blast

lemma cell_in_row_unit:
  assumes "p \<in> set cells"
  shows "\<exists>u\<in>set unit_cells. p \<in> set u"
proof -
  have "peers p p" by (simp add: peers_def)
  then show ?thesis using peers_units [OF assms assms] by blast
qed

lemma solved_filled:
  assumes "solved g"
  shows "filled g"
  unfolding filled_def
proof
  fix p assume p: "p \<in> set cells"
  then obtain u where u: "u \<in> set unit_cells" "p \<in> set u" using cell_in_row_unit by blast
  let ?A = "{q \<in> set u. cell_at g q \<in> {1..9}}"
  from assms u(1) have "\<forall>v\<in>{1..9}. \<exists>q\<in>set u. cell_at g q = v" unfolding solved_unfold by blast
  then have "{1..9} \<subseteq> cell_at g ` ?A"
  proof (intro subsetI)
    fix v :: nat assume v: "v \<in> {1..9}"
    assume "\<forall>v\<in>{1..9}. \<exists>q\<in>set u. cell_at g q = v"
    with v obtain q where "q \<in> set u" "cell_at g q = v" by blast
    with v have "q \<in> ?A" by simp
    with \<open>cell_at g q = v\<close> show "v \<in> cell_at g ` ?A" by blast
  qed
  then have "card {1..9::nat} \<le> card (cell_at g ` ?A)" by (intro card_mono) auto
  also have "\<dots> \<le> card ?A" by (intro card_image_le) auto
  finally have "9 \<le> card ?A" by simp
  moreover have "card (set u) = 9" using unit_cells_distinct [OF u(1)] unit_cells_length [OF u(1)]
    by (simp add: distinct_card)
  moreover have "?A \<subseteq> set u" by auto
  ultimately have "?A = set u"
    by (metis (no_types, lifting) List.finite_set card_mono card_subset_eq le_antisym)
  with u(2) have "cell_at g p \<in> {1..9}" by blast
  then show "1 \<le> cell_at g p \<and> cell_at g p \<le> 9" by simp
qed

lemma filled_in_range: "wf_grid g \<Longrightarrow> filled g \<Longrightarrow> in_range g"
  unfolding in_range_def filled_def wf_grid_def list_all_length cells_set cell_at_def
  by auto

lemma solved_pcons: "solved g \<Longrightarrow> pcons g"
  using consistent_pcons solved_consistent solved_filled filled_in_range solved_def by blast

lemma solvedI:
  assumes "wf_grid g" "filled g" "pcons g"
  shows "solved g"
  unfolding solved_unfold
proof (intro conjI [OF assms(1)] ballI)
  fix u v assume u: "u \<in> set unit_cells" and v: "v \<in> {1..9::nat}"
  have sub: "set u \<subseteq> set cells" using unit_cells_sub [OF u] .
  have inj: "inj_on (cell_at g) (set u)"
  proof (rule inj_onI)
    fix p q assume pq: "p \<in> set u" "q \<in> set u" and e: "cell_at g p = cell_at g q"
    show "p = q"
    proof (rule ccontr)
      assume ne: "p \<noteq> q"
      have "peers p q" using peers_units pq sub u by blast
      moreover have "cell_at g p \<noteq> 0" using assms(2) pq(1) sub unfolding filled_def by force
      ultimately show False using assms(3) pq sub ne e unfolding pcons_def by blast
    qed
  qed
  have "cell_at g ` set u \<subseteq> {1..9}" using assms(2) sub unfolding filled_def by auto
  moreover have "card (cell_at g ` set u) = 9"
    using inj unit_cells_distinct [OF u] unit_cells_length [OF u] by (simp add: card_image distinct_card)
  ultimately have "cell_at g ` set u = {1..9}" by (intro card_subset_eq) auto
  with v have "v \<in> cell_at g ` set u" by simp
  from inj have "\<forall>p\<in>set u. \<forall>q\<in>set u. cell_at g p = v \<and> cell_at g q = v \<longrightarrow> p = q"
    by (auto dest: inj_onD)
  with \<open>v \<in> cell_at g ` set u\<close>
  show "(\<exists>p\<in>set u. cell_at g p = v) \<and>
       (\<forall>p\<in>set u. \<forall>q\<in>set u. cell_at g p = v \<and> cell_at g q = v \<longrightarrow> p = q)" by blast
qed

lemma solved_iff: "solved g = (wf_grid g \<and> filled g \<and> pcons g)"
  using solvedI solved_filled solved_pcons solved_def by blast

section \<open>What the operations compute\<close>

subsection \<open>What isValidMove and validatePuzzle compute\<close>

lemma box_start: "r - r mod 3 = 3 * (r div 3)" for r :: nat
  by (simp add: minus_mod_eq_mult_div)

lemma box_rows:
  fixes r :: nat
  assumes "r < 9"
  shows "(\<exists>i<3. P (i + (r - r mod 3))) = (\<exists>r'<9. r' div 3 = r div 3 \<and> P r')" (is "?L = ?R")
proof
  assume ?L
  then obtain i where i: "i < 3" "P (i + (r - r mod 3))" by blast
  have k: "r div 3 < 3" using assms by (rule div3_less)
  have "i + 3 * (r div 3) < 9" using i(1) k by linarith
  moreover have "(i + 3 * (r div 3)) div 3 = r div 3" using i(1) by simp
  ultimately show ?R using i(2) unfolding box_start by blast
next
  assume ?R
  then obtain r' where r': "r' < 9" "r' div 3 = r div 3" "P r'" by blast
  have "r' = r' mod 3 + 3 * (r' div 3)" by simp
  then have "r' = r' mod 3 + (r - r mod 3)" unfolding box_start r'(2) .
  moreover have "r' mod 3 < 3" by simp
  ultimately show ?L using r'(3) by metis
qed

lemma box_bound: "r < 9 \<Longrightarrow> i < 3 \<Longrightarrow> i + (r - r mod 3) < 9" for r i :: nat
  using div3_less [of r] unfolding box_start by linarith

lemma peers_split:
  fixes row col :: nat
  assumes "row < 9" "col < 9"
  shows "(\<not> (\<exists>c<9. P row c) \<and> \<not> (\<exists>r<9. P r col)
      \<and> \<not> (\<exists>r<9. r div 3 = row div 3 \<and> (\<exists>c<9. c div 3 = col div 3 \<and> P r c)))
    = (\<forall>r<9. \<forall>c<9. (row = r \<or> col = c \<or> (row div 3 = r div 3 \<and> col div 3 = c div 3)) \<longrightarrow> \<not> P r c)"
  (is "?L = ?R")
proof
  assume ?L
  then show ?R by metis
next
  assume R: ?R
  from R assms have "\<not> (\<exists>c<9. P row c)" by blast
  moreover from R assms have "\<not> (\<exists>r<9. P r col)" by blast
  moreover from R have "\<not> (\<exists>r<9. r div 3 = row div 3 \<and> (\<exists>c<9. c div 3 = col div 3 \<and> P r c))" by metis
  ultimately show ?L by blast
qed

lemma isValidMove_iff:
  assumes "wf_grid g" "row < 9" "col < 9"
  shows "isValidMove g row col num = (\<forall>q\<in>set cells. peers (row, col) q \<longrightarrow> cell_at g q \<noteq> num)"
proof -
  define sr where "sr = row - row mod 3"
  define sc where "sc = col - col mod 3"
  have bnd: "\<And>i. i < 3 \<Longrightarrow> i + sr < 9" "\<And>j. j < 3 \<Longrightarrow> j + sc < 9"
    unfolding sr_def sc_def by (rule box_bound [OF assms(2)], assumption) (rule box_bound [OF assms(3)], assumption)
  have rowp: "list_ex (\<lambda>x. cell_is g row x num) [0..<9] = (\<exists>c<9. g ! row ! c = num)"
    using assms by (auto simp: list_ex_iff)
  have colp: "list_ex (\<lambda>x. cell_is g x col num) [0..<9] = (\<exists>r<9. g ! r ! col = num)"
    using assms by (auto simp: list_ex_iff)
  have "list_ex (\<lambda>i. list_ex (\<lambda>j. cell_is g (i + sr) (j + sc) num) [0..<3]) [0..<3]
      = (\<exists>i<3. \<exists>j<3. cell_is g (i + sr) (j + sc) num)"
    by (simp add: list_ex_iff Bex_def)
  also have "\<dots> = (\<exists>i<3. \<exists>j<3. g ! (i + sr) ! (j + sc) = num)"
  proof -
    have "\<And>i j. i < 3 \<Longrightarrow> j < 3 \<Longrightarrow> cell_is g (i + sr) (j + sc) num = (g ! (i + sr) ! (j + sc) = num)"
      using assms(1) bnd by (simp add: cell_is_wf)
    then show ?thesis by blast
  qed
  also have "\<dots> = (\<exists>r<9. r div 3 = row div 3 \<and> (\<exists>j<3. g ! r ! (j + sc) = num))"
    unfolding sr_def by (rule box_rows [OF assms(2)])
  also have "\<dots> = (\<exists>r<9. r div 3 = row div 3 \<and> (\<exists>c<9. c div 3 = col div 3 \<and> g ! r ! c = num))"
  proof -
    have "\<And>r. (\<exists>j<3. g ! r ! (j + sc) = num) = (\<exists>c<9. c div 3 = col div 3 \<and> g ! r ! c = num)"
      unfolding sc_def by (rule box_rows [OF assms(3)])
    then show ?thesis by (simp only:)
  qed
  finally have boxp: "list_ex (\<lambda>i. list_ex (\<lambda>j. cell_is g (i + sr) (j + sc) num) [0..<3]) [0..<3]
      = (\<exists>r<9. r div 3 = row div 3 \<and> (\<exists>c<9. c div 3 = col div 3 \<and> g ! r ! c = num))" .
  have "isValidMove g row col num = (\<not> (\<exists>c<9. g ! row ! c = num) \<and> \<not> (\<exists>r<9. g ! r ! col = num)
      \<and> \<not> (\<exists>r<9. r div 3 = row div 3 \<and> (\<exists>c<9. c div 3 = col div 3 \<and> g ! r ! c = num)))"
    unfolding isValidMove_def Let_def rowp colp sr_def [symmetric] sc_def [symmetric] boxp by auto
  also have "\<dots> = (\<forall>r<9. \<forall>c<9. (row = r \<or> col = c \<or> (row div 3 = r div 3 \<and> col div 3 = c div 3)) \<longrightarrow> g ! r ! c \<noteq> num)"
    using assms(2,3) by (rule peers_split)
  also have "\<dots> = (\<forall>q\<in>set cells. peers (row, col) q \<longrightarrow> cell_at g q \<noteq> num)"
    unfolding cells_set peers_def cell_at_def by auto
  finally show ?thesis .
qed

definition violations :: "grid \<Rightarrow> (nat \<times> nat) list \<Rightarrow> (nat \<times> nat \<times> nat) list" where
  "violations g cs = map (\<lambda>(row, col). (row, col, g ! row ! col))
     (filter (\<lambda>(row, col). \<not> cell_is g row col 0 \<and> \<not> isValidMove (set_cell g row col 0) row col (g ! row ! col)) cs)"

lemma fold_validate_cell:
  "fold validate_cell cs (g, errs) = (g, errs @ violations g cs)"
proof (induction cs arbitrary: errs)
  case Nil
  then show ?case by (simp add: violations_def)
next
  case (Cons rc cs)
  obtain row col where rc: "rc = (row, col)" by (cases rc)
  have "validate_cell rc (g, errs) = (g, errs @ violations g [rc])"
    by (simp add: rc validate_cell_def violations_def Let_def set_cell_restore)
  moreover have "violations g (rc # cs) = violations g [rc] @ violations g cs"
    by (simp add: violations_def)
  ultimately show ?case using Cons.IH by simp
qed

lemma validatePuzzle_eq:
  "validatePuzzle g = (\<lparr>isValid = (violations g cells = []), errors = violations g cells\<rparr>, g)"
  by (simp add: validatePuzzle_def fold_validate_cell)

lemma cleared_valid:
  assumes "wf_grid g" "pcons g" "row < 9" "col < 9" "g ! row ! col \<noteq> 0"
  shows "isValidMove (set_cell g row col 0) row col (g ! row ! col)"
proof -
  have "cell_at (set_cell g row col 0) q \<noteq> g ! row ! col" if q: "q \<in> set cells" "peers (row, col) q" for q
  proof (cases "q = (row, col)")
    case True
    then show ?thesis using assms by (simp add: cell_at_def nth_set_cell)
  next
    case False
    have "(row, col) \<in> set cells" using assms by (simp add: cells_set)
    with assms(2,5) q False have "cell_at g (row, col) \<noteq> cell_at g q"
      unfolding pcons_def by (metis cell_at_def fst_conv snd_conv)
    moreover have "cell_at (set_cell g row col 0) q = cell_at g q"
      using False q(1) assms(1) by (cases q) (auto simp: cell_at_def nth_set_cell cells_set)
    ultimately show ?thesis by (simp add: cell_at_def)
  qed
  then show ?thesis using assms by (simp add: isValidMove_iff)
qed

lemma violations_solved:
  assumes "wf_grid g" "pcons g"
  shows "violations g cells = []"
  unfolding violations_def
  using assms cleared_valid by (auto simp: filter_empty_conv cells_set)

lemma no_empty_filled:
  assumes "wf_grid g" "filled g"
  shows "\<not> list_ex (\<lambda>(row, col). cell_is g row col 0) cells"
proof -
  have "\<not> cell_is g row col 0" if "(row, col) \<in> set cells" for row col
    using that assms unfolding filled_def cell_at_def by (fastforce simp: cells_set)
  then show ?thesis by (auto simp: list_ex_iff)
qed

subsection \<open>What getHint computes\<close>

definition possibilities :: "grid \<Rightarrow> nat \<times> nat \<Rightarrow> nat" where
  "possibilities g p = length (getPossibleValues g (fst p) (snd p))"

lemma possibilities_le: "possibilities g p \<le> 9"
proof -
  have "length (filter (\<lambda>num. isValidMove g (fst p) (snd p) num) [1..<10]) \<le> length [1..<10::nat]"
    by (rule length_filter_le)
  then show ?thesis by (simp add: possibilities_def getPossibleValues_def)
qed

lemma hint_scan_cases:
  "(hint_scan g cs best mn = best \<and> (\<forall>q\<in>set cs. mn \<le> possibilities g q)) \<or>
   (\<exists>pre p post. cs = pre @ [p] @ post \<and> hint_scan g cs best mn = Some p \<and>
      possibilities g p < mn \<and>
      (\<forall>q\<in>set pre. possibilities g p < possibilities g q) \<and>
      (possibilities g p = 1 \<or> (\<forall>q\<in>set post. possibilities g p \<le> possibilities g q)))"
proof (induction cs arbitrary: best mn)
  case Nil
  then show ?case by simp
next
  case (Cons cell rest)
  let ?n = "possibilities g cell"
  have n: "length (getPossibleValues g (fst cell) (snd cell)) = ?n" by (simp add: possibilities_def)
  show ?case
  proof (cases "?n < mn")
    case True
    show ?thesis
    proof (cases "?n = 1")
      case True
      with \<open>?n < mn\<close> have "cell # rest = [] @ [cell] @ rest \<and> hint_scan g (cell # rest) best mn = Some cell \<and>
        ?n < mn \<and> (\<forall>q\<in>set []. ?n < possibilities g q) \<and> (?n = 1 \<or> (\<forall>q\<in>set rest. ?n \<le> possibilities g q))"
        by (simp add: n)
      then show ?thesis by blast
    next
      case False
      with True have step: "hint_scan g (cell # rest) best mn = hint_scan g rest (Some cell) ?n"
        by (simp add: n)
      from Cons.IH [of "Some cell" ?n] show ?thesis
      proof
        assume a: "hint_scan g rest (Some cell) ?n = Some cell \<and> (\<forall>q\<in>set rest. ?n \<le> possibilities g q)"
        with step True have "cell # rest = [] @ [cell] @ rest \<and> hint_scan g (cell # rest) best mn = Some cell \<and>
          ?n < mn \<and> (\<forall>q\<in>set []. ?n < possibilities g q) \<and> (?n = 1 \<or> (\<forall>q\<in>set rest. ?n \<le> possibilities g q))"
          by simp
        then show ?thesis by blast
      next
        assume "\<exists>pre p post. rest = pre @ [p] @ post \<and> hint_scan g rest (Some cell) ?n = Some p \<and>
          possibilities g p < ?n \<and> (\<forall>q\<in>set pre. possibilities g p < possibilities g q) \<and>
          (possibilities g p = 1 \<or> (\<forall>q\<in>set post. possibilities g p \<le> possibilities g q))"
        then obtain pre p post where b: "rest = pre @ [p] @ post" "hint_scan g rest (Some cell) ?n = Some p"
          "possibilities g p < ?n" "\<forall>q\<in>set pre. possibilities g p < possibilities g q"
          "possibilities g p = 1 \<or> (\<forall>q\<in>set post. possibilities g p \<le> possibilities g q)" by blast
        with step True have "cell # rest = (cell # pre) @ [p] @ post \<and> hint_scan g (cell # rest) best mn = Some p \<and>
          possibilities g p < mn \<and> (\<forall>q\<in>set (cell # pre). possibilities g p < possibilities g q) \<and>
          (possibilities g p = 1 \<or> (\<forall>q\<in>set post. possibilities g p \<le> possibilities g q))"
          by simp
        then show ?thesis by blast
      qed
    qed
  next
    case False
    then have step: "hint_scan g (cell # rest) best mn = hint_scan g rest best mn"
      by (simp add: n)
    from Cons.IH [of best mn] show ?thesis
    proof
      assume "hint_scan g rest best mn = best \<and> (\<forall>q\<in>set rest. mn \<le> possibilities g q)"
      with step False show ?thesis by simp
    next
      assume "\<exists>pre p post. rest = pre @ [p] @ post \<and> hint_scan g rest best mn = Some p \<and>
          possibilities g p < mn \<and> (\<forall>q\<in>set pre. possibilities g p < possibilities g q) \<and>
          (possibilities g p = 1 \<or> (\<forall>q\<in>set post. possibilities g p \<le> possibilities g q))"
      then obtain pre p post where b: "rest = pre @ [p] @ post" "hint_scan g rest best mn = Some p"
          "possibilities g p < mn" "\<forall>q\<in>set pre. possibilities g p < possibilities g q"
          "possibilities g p = 1 \<or> (\<forall>q\<in>set post. possibilities g p \<le> possibilities g q)" by blast
      with step False have "cell # rest = (cell # pre) @ [p] @ post \<and> hint_scan g (cell # rest) best mn = Some p \<and>
          possibilities g p < mn \<and> (\<forall>q\<in>set (cell # pre). possibilities g p < possibilities g q) \<and>
          (possibilities g p = 1 \<or> (\<forall>q\<in>set post. possibilities g p \<le> possibilities g q))"
        by simp
      then show ?thesis by blast
    qed
  qed
qed

lemma getHint_None: "(getHint e g = None) = (emptyCells g = [])"
proof (cases "emptyCells g = []")
  case True
  then show ?thesis by (simp add: getHint_def emptyCells_def)
next
  case False
  then obtain q where q: "q \<in> set (emptyCells g)" by (cases "emptyCells g") auto
  have "possibilities g q \<le> 9" by (rule possibilities_le)
  with q have "\<not> (\<forall>q\<in>set (emptyCells g). 10 \<le> possibilities g q)" by force
  with hint_scan_cases [of g "emptyCells g" None 10]
  obtain p where "hint_scan g (emptyCells g) None 10 = Some p" by blast
  with False show ?thesis
    by (cases p) (simp add: getHint_def emptyCells_def [symmetric])
qed

lemma getHint_Some:
  assumes "emptyCells g \<noteq> []"
  shows "\<exists>pre p post. emptyCells g = pre @ [p] @ post \<and>
     getHint e g = Some \<lparr>hint_row = fst p, hint_col = snd p, hint_value = solution e ! fst p ! snd p\<rparr> \<and>
     (\<forall>q\<in>set pre. possibilities g p < possibilities g q) \<and>
     (possibilities g p = 1 \<or> (\<forall>q\<in>set post. possibilities g p \<le> possibilities g q))"
proof -
  from assms obtain q where q: "q \<in> set (emptyCells g)" by (cases "emptyCells g") auto
  have "possibilities g q \<le> 9" by (rule possibilities_le)
  with q have "\<not> (\<forall>q\<in>set (emptyCells g). 10 \<le> possibilities g q)" by force
  with hint_scan_cases [of g "emptyCells g" None 10]
  obtain pre p post where b: "emptyCells g = pre @ [p] @ post" "hint_scan g (emptyCells g) None 10 = Some p"
     "\<forall>q\<in>set pre. possibilities g p < possibilities g q"
     "possibilities g p = 1 \<or> (\<forall>q\<in>set post. possibilities g p \<le> possibilities g q)" by blast
  from assms b(2) have "getHint e g = Some \<lparr>hint_row = fst p, hint_col = snd p, hint_value = solution e ! fst p ! snd p\<rparr>"
    by (cases p) (simp add: getHint_def emptyCells_def [symmetric])
  with b show ?thesis by blast
qed

text \<open>
  The scan stops at the first empty cell with exactly one possible value, and an empty
  cell with no possible value is never replaced: the scan returns the first empty cell
  with at most one possible value, when there is one.
\<close>

lemma hint_scan_zero: "hint_scan g cs best 0 = best"
  by (induction cs) (simp_all add: Let_def)

lemma hint_scan_short:
  assumes "find (\<lambda>q. possibilities g q \<le> 1) cs = Some p" "2 \<le> mn"
  shows "hint_scan g cs best mn = Some p"
  using assms
proof (induction cs arbitrary: best mn)
  case Nil
  then show ?case by simp
next
  case (Cons cell rest)
  let ?n = "possibilities g cell"
  have n: "length (getPossibleValues g (fst cell) (snd cell)) = ?n" by (simp add: possibilities_def)
  show ?case
  proof (cases "?n \<le> 1")
    case True
    with Cons.prems(1) have p: "p = cell" by simp
    from True Cons.prems(2) have lt: "?n < mn" by simp
    show ?thesis
    proof (cases "?n = 1")
      case True
      with lt p show ?thesis by (simp add: n)
    next
      case False
      with True have z: "?n = 0" by simp
      with lt p show ?thesis by (simp add: n hint_scan_zero)
    qed
  next
    case False
    with Cons.prems(1) have f: "find (\<lambda>q. possibilities g q \<le> 1) rest = Some p" by simp
    from False have ge: "2 \<le> ?n" "?n \<noteq> 1" by simp_all
    show ?thesis
    proof (cases "?n < mn")
      case True
      with ge Cons.IH [OF f ge(1), of "Some cell"] show ?thesis by (simp add: n)
    next
      case False
      with Cons.IH [OF f Cons.prems(2), of best] show ?thesis by (simp add: n)
    qed
  qed
qed

lemma getHint_short:
  assumes "find (\<lambda>q. possibilities g q \<le> 1) (emptyCells g) = Some p"
  shows "getHint e g = Some \<lparr>hint_row = fst p, hint_col = snd p, hint_value = solution e ! fst p ! snd p\<rparr>"
proof -
  from assms have ne: "emptyCells g \<noteq> []" by auto
  have "hint_scan g (emptyCells g) None 10 = Some p"
    using hint_scan_short [OF assms, of 10 None] by simp
  with ne show ?thesis
    by (cases p) (simp add: getHint_def emptyCells_def [symmetric])
qed

lemma getHint_fewest:
  assumes "emptyCells g \<noteq> []" "find (\<lambda>q. possibilities g q \<le> 1) (emptyCells g) = None"
  shows "\<exists>pre p post. emptyCells g = pre @ [p] @ post \<and>
     getHint e g = Some \<lparr>hint_row = fst p, hint_col = snd p, hint_value = solution e ! fst p ! snd p\<rparr> \<and>
     (\<forall>q\<in>set pre. possibilities g p < possibilities g q) \<and>
     (\<forall>q\<in>set post. possibilities g p \<le> possibilities g q)"
proof -
  from getHint_Some [OF assms(1), of e]
  obtain pre p post where b: "emptyCells g = pre @ [p] @ post"
    "getHint e g = Some \<lparr>hint_row = fst p, hint_col = snd p, hint_value = solution e ! fst p ! snd p\<rparr>"
    "\<forall>q\<in>set pre. possibilities g p < possibilities g q"
    "possibilities g p = 1 \<or> (\<forall>q\<in>set post. possibilities g p \<le> possibilities g q)" by blast
  from b(1) have "p \<in> set (emptyCells g)" by simp
  with assms(2) have "\<not> possibilities g p \<le> 1" unfolding find_None_iff by blast
  with b(4) have "\<forall>q\<in>set post. possibilities g p \<le> possibilities g q" by simp
  with b(1,2,3) show ?thesis by blast
qed

subsection \<open>Completions of a partial grid\<close>

lemma completion_iff:
  "completion g s = (solved s \<and> (\<forall>p\<in>set cells. cell_at g p \<noteq> 0 \<longrightarrow> cell_at s p = cell_at g p))"
  unfolding completion_def list_all_iff cell_at_def by auto

lemma grid_eqI:
  assumes "wf_grid g" "wf_grid s" "\<And>p. p \<in> set cells \<Longrightarrow> cell_at s p = cell_at g p"
  shows "s = g"
proof (rule nth_equalityI)
  show "length s = length g" using assms(1,2) by (simp add: wf_grid_def)
next
  fix r assume "r < length s"
  then have r: "r < 9" using assms(2) by (simp add: wf_grid_def)
  show "s ! r = g ! r"
  proof (rule nth_equalityI)
    show "length (s ! r) = length (g ! r)" using assms(1,2) r by (simp add: wf_grid_def list_all_length)
  next
    fix c assume "c < length (s ! r)"
    then have "c < 9" using assms(2) r by (simp add: wf_grid_def list_all_length)
    with r have "(r, c) \<in> set cells" by (simp add: cells_set)
    from assms(3) [OF this] show "s ! r ! c = g ! r ! c" by (simp add: cell_at_def)
  qed
qed

lemma cell_at_set_cell:
  assumes "wf_grid g" "p \<in> set cells"
  shows "cell_at (set_cell g row col v) p = (if p = (row, col) then v else cell_at g p)"
  using assms by (cases p) (auto simp: cell_at_def nth_set_cell cells_set)

lemma emptyCells_Nil:
  assumes "wf_grid g"
  shows "(emptyCells g = []) = (\<forall>p\<in>set cells. cell_at g p \<noteq> 0)"
  using assms unfolding emptyCells_def filter_empty_conv cell_at_def by (auto simp: cells_set)

lemma filledI:
  assumes "wf_grid g" "in_range g" "\<forall>p\<in>set cells. cell_at g p \<noteq> 0"
  shows "filled g"
  unfolding filled_def
proof
  fix p assume p: "p \<in> set cells"
  with assms(3) have "cell_at g p \<noteq> 0" by blast
  moreover have "cell_at g p \<le> 9" using in_range_cell [OF assms(1,2) p] .
  ultimately show "1 \<le> cell_at g p \<and> cell_at g p \<le> 9" by simp
qed

lemma completion_full:
  assumes "wf_grid g" "in_range g" "pcons g" "emptyCells g = []"
  shows "completion g s = (s = g)"
proof
  assume c: "completion g s"
  then have "wf_grid s" by (simp add: completion_iff solved_def)
  moreover have "cell_at s p = cell_at g p" if "p \<in> set cells" for p
    using c that assms(1,4) by (simp add: completion_iff emptyCells_Nil)
  ultimately show "s = g" using assms(1) by (intro grid_eqI)
next
  assume "s = g"
  moreover have "filled g" using assms by (intro filledI) (simp_all add: emptyCells_Nil)
  then have "solved g" using assms(1,3) by (intro solvedI)
  ultimately show "completion g s" by (simp add: completion_iff)
qed

lemma completion_set_cell:
  assumes "wf_grid g" "(row, col) \<in> set cells" "cell_at g (row, col) = 0" "num \<noteq> 0"
  shows "completion (set_cell g row col num) s = (completion g s \<and> cell_at s (row, col) = num)"
proof -
  have "(\<forall>p\<in>set cells. cell_at (set_cell g row col num) p \<noteq> 0 \<longrightarrow> cell_at s p = cell_at (set_cell g row col num) p)
      = ((\<forall>p\<in>set cells. cell_at g p \<noteq> 0 \<longrightarrow> cell_at s p = cell_at g p) \<and> cell_at s (row, col) = num)"
    (is "?L = ?R")
  proof
    assume L: ?L
    have "cell_at s p = cell_at g p" if p: "p \<in> set cells" "cell_at g p \<noteq> 0" for p
    proof -
      from p assms(3) have "p \<noteq> (row, col)" by auto
      with L p assms(1) show ?thesis by (simp add: cell_at_set_cell)
    qed
    moreover from L assms(1,2,4) have "cell_at s (row, col) = num" by (simp add: cell_at_set_cell)
    ultimately show ?R by blast
  next
    assume R: ?R
    show ?L
    proof (intro ballI impI)
      fix p assume p: "p \<in> set cells" "cell_at (set_cell g row col num) p \<noteq> 0"
      show "cell_at s p = cell_at (set_cell g row col num) p"
      proof (cases "p = (row, col)")
        case True
        with R assms(1) p(1) show ?thesis by (simp add: cell_at_set_cell)
      next
        case False
        with p assms(1) have "cell_at g p \<noteq> 0" by (simp add: cell_at_set_cell)
        with R p(1) have "cell_at s p = cell_at g p" by blast
        with False p(1) assms(1) show ?thesis by (simp add: cell_at_set_cell)
      qed
    qed
  qed
  then show ?thesis unfolding completion_iff by blast
qed

lemma pcons_set_cell:
  assumes "wf_grid g" "pcons g" "row < 9" "col < 9" "isValidMove g row col num"
  shows "pcons (set_cell g row col num)"
  unfolding pcons_def
proof (intro ballI impI)
  fix p q
  assume pq: "p \<in> set cells" "q \<in> set cells"
    and h: "p \<noteq> q \<and> peers p q \<and> cell_at (set_cell g row col num) p \<noteq> 0"
  have v: "\<And>q. q \<in> set cells \<Longrightarrow> peers (row, col) q \<Longrightarrow> cell_at g q \<noteq> num"
    using assms(5) isValidMove_iff [OF assms(1,3,4)] by blast
  have sym: "peers q p" using h by (auto simp: peers_def)
  show "cell_at (set_cell g row col num) p \<noteq> cell_at (set_cell g row col num) q"
  proof (cases "p = (row, col)")
    case True
    with h have "q \<noteq> (row, col)" by auto
    moreover from True h pq have "cell_at g q \<noteq> num" using v by blast
    ultimately show ?thesis using True pq assms(1) by (simp add: cell_at_set_cell)
  next
    case False
    show ?thesis
    proof (cases "q = (row, col)")
      case True
      from True sym pq have "cell_at g p \<noteq> num" using v by blast
      then show ?thesis using True False pq assms(1) by (simp add: cell_at_set_cell)
    next
      case qf: False
      from False h pq assms(1) have "cell_at g p \<noteq> 0" by (simp add: cell_at_set_cell)
      with assms(2) pq h have "cell_at g p \<noteq> cell_at g q" unfolding pcons_def by blast
      then show ?thesis using False qf pq assms(1) by (simp add: cell_at_set_cell)
    qed
  qed
qed

lemma completion_valid_move:
  assumes "wf_grid g" "row < 9" "col < 9" "cell_at g (row, col) = 0" "completion g s"
  shows "isValidMove g row col (cell_at s (row, col)) \<and> 1 \<le> cell_at s (row, col) \<and> cell_at s (row, col) \<le> 9"
proof -
  have rc: "(row, col) \<in> set cells" using assms(2,3) by (simp add: cells_set)
  from assms(5) have s: "solved s" and ext: "\<And>p. p \<in> set cells \<Longrightarrow> cell_at g p \<noteq> 0 \<Longrightarrow> cell_at s p = cell_at g p"
    by (simp_all add: completion_iff)
  from s have f: "filled s" and pc: "pcons s" by (simp_all add: solved_iff)
  from f rc have v: "1 \<le> cell_at s (row, col) \<and> cell_at s (row, col) \<le> 9" unfolding filled_def by blast
  have "cell_at g q \<noteq> cell_at s (row, col)" if q: "q \<in> set cells" "peers (row, col) q" for q
  proof (cases "q = (row, col)")
    case True
    then show ?thesis using assms(4) v by simp
  next
    case False
    show ?thesis
    proof
      assume e: "cell_at g q = cell_at s (row, col)"
      with v have "cell_at g q \<noteq> 0" by simp
      from ext [OF q(1) this] e have "cell_at s q = cell_at s (row, col)" by simp
      moreover have "cell_at s (row, col) \<noteq> 0" using v by simp
      ultimately show False using pc rc q False unfolding pcons_def by metis
    qed
  qed
  then have "isValidMove g row col (cell_at s (row, col))"
    using isValidMove_iff [OF assms(1,2,3)] by blast
  with v show ?thesis by simp
qed

lemma in_range_set_cell:
  assumes "in_range g" "num \<le> 9"
  shows "in_range (set_cell g row col num)"
proof (cases "row < length g")
  case True
  have "list_all (\<lambda>v. v \<le> 9) ((g ! row)[col := num])"
    using assms True unfolding in_range_def list_all_iff
    by (metis nth_mem insertE set_update_subset_insert subsetD)
  with assms(1) show ?thesis unfolding in_range_def set_cell_def list_all_iff
    by (metis insertE set_update_subset_insert subsetD)
next
  case False
  then show ?thesis using assms(1) by (simp add: set_cell_def list_update_beyond)
qed

text \<open>A grid that has a completion has no conflict among its filled cells.\<close>

lemma completion_consistent:
  assumes "completion g s"
  shows "consistent g"
  unfolding consistent_iff
proof (intro ballI impI)
  fix u v p q
  assume u: "u \<in> set unit_cells" and v: "v \<in> {1..9::nat}"
    and p: "p \<in> set u" and q: "q \<in> set u" and e: "cell_at g p = v \<and> cell_at g q = v"
  from u p q have pq: "p \<in> set cells" "q \<in> set cells" using unit_cells_sub by auto
  from v e have "cell_at g p \<noteq> 0" "cell_at g q \<noteq> 0" by auto
  with assms pq e have "cell_at s p = v \<and> cell_at s q = v" by (simp add: completion_iff)
  moreover from assms have "solved s" by (simp add: completion_iff)
  ultimately show "p = q" using u v p q unfolding solved_unfold by blast
qed

subsection \<open>The exhaustive search and findAllSolutions\<close>

text \<open>
  \<open>all_solutions\<close> is the search of \<^verbatim>\<open>findAllSolutions\<close> without the cutoff: every
  completion the backtracking reaches, in the order in which it reaches them (first empty
  cell in row-major order, candidates 1 to 9 ascending).
\<close>

function all_solutions :: "grid \<Rightarrow> grid list" where
  "all_solutions g =
     (case findEmptyCell g of
        None \<Rightarrow> [g]
      | Some (row, col) \<Rightarrow>
          concat (map (\<lambda>num. if isValidMove g row col num then all_solutions (set_cell g row col num) else [])
                    [1..<10]))"
  by pat_completeness auto
termination
  by (relation "measure (\<lambda>g. length (emptyCells g))") (auto intro!: fill_decreases)

declare all_solutions.simps [simp del]

definition goodgrid :: "grid \<Rightarrow> bool" where
  "goodgrid g = (wf_grid g \<and> in_range g \<and> pcons g)"

lemma goodgrid_set_cell:
  assumes "goodgrid g" "findEmptyCell g = Some (row, col)" "num \<in> set [1..<10]" "isValidMove g row col num"
  shows "goodgrid (set_cell g row col num)"
proof -
  from findEmptyCell_Some [OF assms(2)] have rc: "row < 9" "col < 9" by auto
  from assms(3) have "num \<le> 9" by auto
  with assms(1,4) rc show ?thesis
    unfolding goodgrid_def by (simp add: in_range_set_cell pcons_set_cell)
qed

lemma empty_cell_at:
  assumes "wf_grid g" "findEmptyCell g = Some (row, col)"
  shows "row < 9 \<and> col < 9 \<and> (row, col) \<in> set cells \<and> cell_at g (row, col) = 0"
  using findEmptyCell_Some [OF assms(2)] assms(1) by (simp add: cell_at_def cell_is_def)

lemma completions_split:
  assumes "goodgrid g" "findEmptyCell g = Some (row, col)"
  shows "completion g s = (\<exists>num\<in>set [1..<10]. isValidMove g row col num \<and> completion (set_cell g row col num) s)"
proof -
  from assms(1) have wf: "wf_grid g" by (simp add: goodgrid_def)
  from empty_cell_at [OF wf assms(2)]
  have rc: "row < 9" "col < 9" "(row, col) \<in> set cells" "cell_at g (row, col) = 0" by auto
  show ?thesis
  proof
    assume c: "completion g s"
    let ?v = "cell_at s (row, col)"
    from completion_valid_move [OF wf rc(1,2,4) c]
    have v: "isValidMove g row col ?v" "1 \<le> ?v" "?v \<le> 9" by auto
    then have "?v \<in> set [1..<10]" by auto
    moreover have "completion (set_cell g row col ?v) s"
      using completion_set_cell [OF wf rc(3,4), of ?v s] c v(2) by simp
    ultimately show "\<exists>num\<in>set [1..<10]. isValidMove g row col num \<and> completion (set_cell g row col num) s"
      using v(1) by blast
  next
    assume "\<exists>num\<in>set [1..<10]. isValidMove g row col num \<and> completion (set_cell g row col num) s"
    then obtain num where n: "num \<in> set [1..<10]" "completion (set_cell g row col num) s" by blast
    from n(1) have "num \<noteq> 0" by auto
    from completion_set_cell [OF wf rc(3,4) this, of s] n(2) show "completion g s" by simp
  qed
qed

lemma all_solutions_set:
  "goodgrid g \<Longrightarrow> set (all_solutions g) = {s. completion g s}"
proof (induction g rule: all_solutions.induct)
  case (1 g)
  from "1.prems" have g: "wf_grid g" "in_range g" "pcons g" by (simp_all add: goodgrid_def)
  show ?case
  proof (cases "findEmptyCell g")
    case None
    then have "emptyCells g = []" by (simp add: findEmptyCell_None)
    from completion_full [OF g this] None show ?thesis
      by (simp add: all_solutions.simps)
  next
    case (Some rc)
    obtain row col where rc: "rc = (row, col)" by (cases rc)
    with Some have f: "findEmptyCell g = Some (row, col)" by simp
    have ih: "set (all_solutions (set_cell g row col num)) = {s. completion (set_cell g row col num) s}"
      if "num \<in> set [1..<10]" "isValidMove g row col num" for num
      using "1.IH" [OF f refl that] goodgrid_set_cell [OF "1.prems" f that] by simp
    have "set (all_solutions g) =
        (\<Union>num\<in>set [1..<10]. if isValidMove g row col num then set (all_solutions (set_cell g row col num)) else {})"
      by (subst all_solutions.simps) (auto simp: f split: if_splits)
    also have "\<dots> = {s. \<exists>num\<in>set [1..<10]. isValidMove g row col num \<and> completion (set_cell g row col num) s}"
      using ih by (auto split: if_splits)
    also have "\<dots> = {s. completion g s}"
      using completions_split [OF "1.prems" f] by simp
    finally show ?thesis .
  qed
qed

lemma distinct_concat_map:
  assumes "distinct ns" "\<And>n. n \<in> set ns \<Longrightarrow> distinct (F n)"
    "\<And>n m. n \<in> set ns \<Longrightarrow> m \<in> set ns \<Longrightarrow> n \<noteq> m \<Longrightarrow> set (F n) \<inter> set (F m) = {}"
  shows "distinct (concat (map F ns))"
  using assms
proof (induction ns)
  case Nil
  then show ?case by simp
next
  case (Cons a ns)
  have "distinct (concat (map F ns))" using Cons by simp
  moreover have "distinct (F a)" using Cons.prems(2) by simp
  moreover have "set (F a) \<inter> set (concat (map F ns)) = {}"
  proof -
    have "set (F a) \<inter> set (F m) = {}" if "m \<in> set ns" for m
      using Cons.prems(3) [of a m] Cons.prems(1) that by auto
    then show ?thesis by auto
  qed
  ultimately show ?case by simp
qed

lemma all_solutions_distinct:
  "goodgrid g \<Longrightarrow> distinct (all_solutions g)"
proof (induction g rule: all_solutions.induct)
  case (1 g)
  from "1.prems" have wf: "wf_grid g" by (simp add: goodgrid_def)
  show ?case
  proof (cases "findEmptyCell g")
    case None
    then show ?thesis by (simp add: all_solutions.simps)
  next
    case (Some rc)
    obtain row col where rc: "rc = (row, col)" by (cases rc)
    with Some have f: "findEmptyCell g = Some (row, col)" by simp
    from empty_cell_at [OF wf f]
    have e: "(row, col) \<in> set cells" "cell_at g (row, col) = 0" by auto
    let ?F = "\<lambda>num. if isValidMove g row col num then all_solutions (set_cell g row col num) else []"
    have d: "distinct (?F num)" if "num \<in> set [1..<10]" for num
      using "1.IH" [OF f refl that] goodgrid_set_cell [OF "1.prems" f that] by simp
    have v: "cell_at s (row, col) = num" if "num \<in> set [1..<10]" "s \<in> set (?F num)" for num s
    proof -
      from that have iv: "isValidMove g row col num" and s: "s \<in> set (all_solutions (set_cell g row col num))"
        by (auto split: if_splits)
      from s all_solutions_set [OF goodgrid_set_cell [OF "1.prems" f that(1) iv]]
      have "completion (set_cell g row col num) s" by simp
      moreover from that(1) have nz: "num \<noteq> 0" by auto
      ultimately show ?thesis using completion_set_cell [OF wf e nz, of s] by simp
    qed
    have "set (?F n) \<inter> set (?F m) = {}" if "n \<in> set [1..<10]" "m \<in> set [1..<10]" "n \<noteq> m" for n m
      using v [OF that(1)] v [OF that(2)] that(3) by blast
    with d have "distinct (concat (map ?F [1..<10]))"
      by (intro distinct_concat_map) simp_all
    then show ?thesis by (subst all_solutions.simps) (simp add: f)
  qed
qed

declare findAllSolutions.simps [simp del]

definition extend :: "grid list \<Rightarrow> nat \<Rightarrow> grid list \<Rightarrow> grid list" where
  "extend sols mx xs = sols @ take (mx - length sols) xs"

lemma extend_Nil [simp]: "extend sols mx [] = sols"
  by (simp add: extend_def)

lemma extend_full [simp]: "mx \<le> length sols \<Longrightarrow> extend sols mx xs = sols"
  by (simp add: extend_def)

lemma extend_append: "extend (extend sols mx xs) mx ys = extend sols mx (xs @ ys)"
  by (auto simp: extend_def min_def)

lemma findAll_fold:
  assumes "\<And>num cur. num \<in> set ns \<Longrightarrow> isValidMove g row col num \<Longrightarrow>
      findAllSolutions (set_cell g row col num) cur mx =
        (length (extend cur mx (all_solutions (set_cell g row col num))) < mx,
         extend cur mx (all_solutions (set_cell g row col num)))"
  shows "fold (\<lambda>num (continue, solutions').
                  if \<not> continue then (False, solutions')
                  else if isValidMove g row col num
                  then findAllSolutions (set_cell g row col num) solutions' mx
                  else (True, solutions'))
            ns (length cur < mx, cur)
     = (let xs = concat (map (\<lambda>num. if isValidMove g row col num then all_solutions (set_cell g row col num) else []) ns)
        in (length (extend cur mx xs) < mx, extend cur mx xs))"
  using assms
proof (induction ns arbitrary: cur)
  case Nil
  then show ?case by simp
next
  case (Cons n ns)
  let ?E = "\<lambda>num. if isValidMove g row col num then all_solutions (set_cell g row col num) else []"
  let ?F = "\<lambda>num (continue, solutions').
                  if \<not> continue then (False, solutions')
                  else if isValidMove g row col num
                  then findAllSolutions (set_cell g row col num) solutions' mx
                  else (True, solutions')"
  have step: "?F n (length cur < mx, cur) = (length (extend cur mx (?E n)) < mx, extend cur mx (?E n))"
  proof (cases "length cur < mx")
    case False
    then show ?thesis by simp
  next
    case True
    then show ?thesis using Cons.prems [of n cur] by simp
  qed
  have "fold ?F (n # ns) (length cur < mx, cur) = fold ?F ns (length (extend cur mx (?E n)) < mx, extend cur mx (?E n))"
    by (simp only: fold_simps step)
  also have "\<dots> = (let xs = concat (map ?E ns) in
       (length (extend (extend cur mx (?E n)) mx xs) < mx, extend (extend cur mx (?E n)) mx xs))"
    by (rule Cons.IH) (simp add: Cons.prems)
  finally show ?case by (simp add: extend_append Let_def)
qed

lemma findAllSolutions_eq:
  "findAllSolutions g sols mx =
     (length (extend sols mx (all_solutions g)) < mx, extend sols mx (all_solutions g))"
proof (induction g sols mx rule: findAllSolutions.induct)
  case (1 g sols mx)
  show ?case
  proof (cases "mx \<le> length sols")
    case True
    then show ?thesis by (subst findAllSolutions.simps) simp
  next
    case False
    show ?thesis
    proof (cases "findEmptyCell g")
      case None
      with False show ?thesis by (subst findAllSolutions.simps) (simp add: all_solutions.simps extend_def)
    next
      case (Some rc)
      obtain row col where rc: "rc = (row, col)" by (cases rc)
      with Some have f: "findEmptyCell g = Some (row, col)" by simp
      have ih: "findAllSolutions (set_cell g row col num) cur mx =
        (length (extend cur mx (all_solutions (set_cell g row col num))) < mx,
         extend cur mx (all_solutions (set_cell g row col num)))"
        if "num \<in> set [1..<10]" "isValidMove g row col num" for num cur
      proof (cases "length cur < mx")
        case True
        from "1.IH" [OF False f refl that(1) _ that(2), of True cur] show ?thesis by simp
      next
        case c: False
        then show ?thesis by (subst findAllSolutions.simps) simp
      qed
      from False have l: "(length sols < mx) = True" by simp
      have "findAllSolutions g sols mx = fold (\<lambda>num (continue, solutions').
                  if \<not> continue then (False, solutions')
                  else if isValidMove g row col num
                  then findAllSolutions (set_cell g row col num) solutions' mx
                  else (True, solutions')) [1..<10] (length sols < mx, sols)"
        using False by (subst findAllSolutions.simps) (simp add: f l)
      also have "\<dots> = (let xs = concat (map (\<lambda>num. if isValidMove g row col num then all_solutions (set_cell g row col num) else []) [1..<10])
        in (length (extend sols mx xs) < mx, extend sols mx xs))"
        by (rule findAll_fold) (rule ih)
      also have "\<dots> = (length (extend sols mx (all_solutions g)) < mx, extend sols mx (all_solutions g))"
        by (subst (1 2) all_solutions.simps) (simp add: f Let_def)
      finally show ?thesis .
    qed
  qed
qed

subsection \<open>The calls of findAllSolutions\<close>



















subsection \<open>What hasUniqueSolution and solvePuzzleWithSteps compute\<close>

lemma goodgridI: "wf_grid g \<Longrightarrow> in_range g \<Longrightarrow> consistent g \<Longrightarrow> goodgrid g"
  by (simp add: goodgrid_def consistent_pcons)

lemma take2_length: "(length (take 2 xs) = Suc 0) = (length xs = Suc 0)"
proof (cases xs)
  case Nil
  then show ?thesis by simp
next
  case (Cons a ys)
  then show ?thesis by (cases ys) simp_all
qed

lemma hasUniqueSolution_length: "hasUniqueSolution g = (length (all_solutions g) = 1)"
proof -
  have "findAllSolutions g [] 2 = (length (take 2 (all_solutions g)) < 2, take 2 (all_solutions g))"
    unfolding findAllSolutions_eq [of g "[]" 2] extend_def by simp
  then show ?thesis
    unfolding hasUniqueSolution_def Let_def using take2_length [of "all_solutions g"] by simp
qed

lemma unique_completion:
  assumes "goodgrid g"
  shows "(length (all_solutions g) = 1) = (\<exists>!s. completion g s)"
proof
  have c: "completion g t = (t \<in> set (all_solutions g))" for t
    unfolding all_solutions_set [OF assms] by simp
  assume "length (all_solutions g) = 1"
  then obtain s where s: "all_solutions g = [s]" by (cases "all_solutions g") auto
  show "\<exists>!s. completion g s"
  proof (rule ex1I [of _ s])
    show "completion g s" by (simp add: c s)
  next
    fix t assume "completion g t"
    then show "t = s" by (simp add: c s)
  qed
next
  have c: "completion g t = (t \<in> set (all_solutions g))" for t
    unfolding all_solutions_set [OF assms] by simp
  assume "\<exists>!s. completion g s"
  then obtain s where s: "completion g s" and u: "\<And>t. completion g t \<Longrightarrow> t = s" by (elim ex1E) blast
  have "set (all_solutions g) = {s}"
  proof (intro equalityI subsetI)
    fix t assume "t \<in> set (all_solutions g)"
    then have "completion g t" by (simp add: c)
    from u [OF this] show "t \<in> {s}" by simp
  next
    fix t assume "t \<in> {s}"
    with s show "t \<in> set (all_solutions g)" by (simp add: c)
  qed
  then have "card (set (all_solutions g)) = 1" by simp
  with all_solutions_distinct [OF assms] show "length (all_solutions g) = 1"
    by (simp add: distinct_card)
qed

declare solvePuzzleWithSteps.simps [simp del] solvePuzzle.simps [simp del]

lemma solveSteps_fold:
  assumes "\<And>num st. num \<in> set ns \<Longrightarrow> isValidMove g row col num \<Longrightarrow>
      fst (solvePuzzleWithSteps (set_cell g row col num)
             (st @ [\<lparr>step_row = row, step_col = col, step_value = num, step_type = ''place''\<rparr>])) =
        (case all_solutions (set_cell g row col num) of [] \<Rightarrow> None | s # x \<Rightarrow> Some s)"
  shows "fst (fold (\<lambda>num (result, steps').
                  if result \<noteq> None then (result, steps')
                  else if isValidMove g row col num then
                    (case solvePuzzleWithSteps (set_cell g row col num)
                            (steps' @ [\<lparr>step_row = row, step_col = col, step_value = num, step_type = ''place''\<rparr>]) of
                       (Some g', steps'') \<Rightarrow> (Some g', steps'')
                     | (None, steps'') \<Rightarrow>
                         (None, steps'' @ [\<lparr>step_row = row, step_col = col, step_value = 0, step_type = ''backtrack''\<rparr>]))
                  else (None, steps'))
            ns (res, st))
     = (case res of Some s \<Rightarrow> Some s
        | None \<Rightarrow> (case concat (map (\<lambda>num. if isValidMove g row col num then all_solutions (set_cell g row col num) else []) ns)
                    of [] \<Rightarrow> None | s # x \<Rightarrow> Some s))"
  using assms
proof (induction ns arbitrary: res st)
  case Nil
  then show ?case by (simp split: option.splits)
next
  case (Cons n ns)
  have ih: "\<And>num st. num \<in> set ns \<Longrightarrow> isValidMove g row col num \<Longrightarrow>
      fst (solvePuzzleWithSteps (set_cell g row col num)
             (st @ [\<lparr>step_row = row, step_col = col, step_value = num, step_type = ''place''\<rparr>])) =
        (case all_solutions (set_cell g row col num) of [] \<Rightarrow> None | s # x \<Rightarrow> Some s)"
    using Cons.prems by simp
  show ?case
  proof (cases res)
    case (Some s)
    then show ?thesis using Cons.IH [OF ih, of "Some s" st] by simp
  next
    case None
    show ?thesis
    proof (cases "isValidMove g row col n")
      case False
      then show ?thesis using None Cons.IH [OF ih, of None st] by simp
    next
      case True
      let ?st = "st @ [\<lparr>step_row = row, step_col = col, step_value = n, step_type = ''place''\<rparr>]"
      obtain r st' where r: "solvePuzzleWithSteps (set_cell g row col n) ?st = (r, st')"
        by (cases "solvePuzzleWithSteps (set_cell g row col n) ?st")
      from Cons.prems [of n st] True r
      have rv: "r = (case all_solutions (set_cell g row col n) of [] \<Rightarrow> None | s # x \<Rightarrow> Some s)" by simp
      show ?thesis
      proof (cases r)
        case rn: None
        with rv have "all_solutions (set_cell g row col n) = []" by (simp split: list.splits)
        with None True r rn show ?thesis
          using Cons.IH [OF ih, of None "st' @ [\<lparr>step_row = row, step_col = col, step_value = 0, step_type = ''backtrack''\<rparr>]"]
          by simp
      next
        case (Some s)
        with rv obtain x where "all_solutions (set_cell g row col n) = s # x" by (auto split: list.splits)
        with None True r Some show ?thesis
          using Cons.IH [OF ih, of "Some s" st'] by simp
      qed
    qed
  qed
qed

lemma solvePuzzleWithSteps_first:
  "fst (solvePuzzleWithSteps g steps) = (case all_solutions g of [] \<Rightarrow> None | s # x \<Rightarrow> Some s)"
proof (induction g steps rule: solvePuzzleWithSteps.induct)
  case (1 g steps)
  show ?case
  proof (cases "findEmptyCell g")
    case None
    then show ?thesis by (subst solvePuzzleWithSteps.simps) (simp add: all_solutions.simps)
  next
    case (Some rc)
    obtain row col where rc: "rc = (row, col)" by (cases rc)
    with Some have f: "findEmptyCell g = Some (row, col)" by simp
    have ih: "fst (solvePuzzleWithSteps (set_cell g row col num)
             (st @ [\<lparr>step_row = row, step_col = col, step_value = num, step_type = ''place''\<rparr>])) =
        (case all_solutions (set_cell g row col num) of [] \<Rightarrow> None | s # x \<Rightarrow> Some s)"
      if "num \<in> set [1..<10]" "isValidMove g row col num" for num st
      using "1.IH" f that by auto
    have "fst (solvePuzzleWithSteps g steps) = fst (fold (\<lambda>num (result, steps').
                  if result \<noteq> None then (result, steps')
                  else if isValidMove g row col num then
                    (case solvePuzzleWithSteps (set_cell g row col num)
                            (steps' @ [\<lparr>step_row = row, step_col = col, step_value = num, step_type = ''place''\<rparr>]) of
                       (Some g', steps'') \<Rightarrow> (Some g', steps'')
                     | (None, steps'') \<Rightarrow>
                         (None, steps'' @ [\<lparr>step_row = row, step_col = col, step_value = 0, step_type = ''backtrack''\<rparr>]))
                  else (None, steps'))
            [1..<10] (None, steps))"
      by (subst solvePuzzleWithSteps.simps) (simp only: f option.case prod.case)
    also have "\<dots> = (case concat (map (\<lambda>num. if isValidMove g row col num then all_solutions (set_cell g row col num) else []) [1..<10])
                    of [] \<Rightarrow> None | s # x \<Rightarrow> Some s)"
      by (simp only: solveSteps_fold [OF ih] option.case)
    also have "\<dots> = (case all_solutions g of [] \<Rightarrow> None | s # x \<Rightarrow> Some s)"
      by (subst (2) all_solutions.simps) (simp only: f option.case prod.case)
    finally show ?thesis .
  qed
qed


text \<open>
  On a grid whose filled cells do not conflict, solveCurrentPuzzle succeeds exactly when
  the grid has a completion, and then returns one.
\<close>

lemma solveCurrentPuzzle_consistent:
  assumes "wf_grid (grid e)" "in_range (grid e)" "consistent (grid e)"
  shows "success (solveCurrentPuzzle e) = (\<exists>s. completion (grid e) s) \<and>
         (success (solveCurrentPuzzle e) \<longrightarrow>
            (\<exists>s. solved_grid (solveCurrentPuzzle e) = Some s \<and> completion (grid e) s)) \<and>
         (\<not> success (solveCurrentPuzzle e) \<longrightarrow> solved_grid (solveCurrentPuzzle e) = None)"
proof -
  from assms have g: "goodgrid (grid e)" by (rule goodgridI)
  have c: "completion (grid e) t = (t \<in> set (all_solutions (grid e)))" for t
    unfolding all_solutions_set [OF g] by simp
  obtain r st where r: "solvePuzzleWithSteps (grid e) [] = (r, st)"
    by (cases "solvePuzzleWithSteps (grid e) []")
  with solvePuzzleWithSteps_first [of "grid e" "[]"]
  have rv: "r = (case all_solutions (grid e) of [] \<Rightarrow> None | s # x \<Rightarrow> Some s)" by simp
  have res: "success (solveCurrentPuzzle e) = (r \<noteq> None)" "solved_grid (solveCurrentPuzzle e) = r"
    by (simp_all add: solveCurrentPuzzle_def r)
  show ?thesis
  proof (cases "all_solutions (grid e)")
    case Nil
    with rv res c show ?thesis by simp
  next
    case (Cons s x)
    with c have "completion (grid e) s" by simp
    with Cons rv res show ?thesis by auto
  qed
qed

subsection \<open>What solvePuzzle computes\<close>

lemma solve_fold:
  assumes "\<And>num rs'. num \<in> set ns \<Longrightarrow> isValidMove g row col num \<Longrightarrow>
      (case fst (solvePuzzle (set_cell g row col num) rs') of
         Some s \<Rightarrow> completion (set_cell g row col num) s
       | None \<Rightarrow> \<not> (\<exists>s. completion (set_cell g row col num) s))"
  shows "case fst (fold (\<lambda>num (result, rs').
                      if result \<noteq> None then (result, rs')
                      else if isValidMove g row col num then solvePuzzle (set_cell g row col num) rs'
                      else (None, rs'))
                ns (res, rs0)) of
           Some s \<Rightarrow> res = Some s \<or> (\<exists>num\<in>set ns. isValidMove g row col num \<and> completion (set_cell g row col num) s)
         | None \<Rightarrow> res = None \<and> (\<forall>num\<in>set ns. isValidMove g row col num \<longrightarrow> \<not> (\<exists>s. completion (set_cell g row col num) s))"
  using assms
proof (induction ns arbitrary: res rs0)
  case Nil
  then show ?case by (simp split: option.splits)
next
  case (Cons n ns)
  let ?F = "\<lambda>num (result, rs').
                      if result \<noteq> None then (result, rs')
                      else if isValidMove g row col num then solvePuzzle (set_cell g row col num) rs'
                      else (None, rs')"
  have ih: "\<And>num rs'. num \<in> set ns \<Longrightarrow> isValidMove g row col num \<Longrightarrow>
      (case fst (solvePuzzle (set_cell g row col num) rs') of
         Some s \<Rightarrow> completion (set_cell g row col num) s
       | None \<Rightarrow> \<not> (\<exists>s. completion (set_cell g row col num) s))"
    using Cons.prems by simp
  obtain res1 rs1 where step: "?F n (res, rs0) = (res1, rs1)" by (cases "?F n (res, rs0)")
  have f: "fold ?F (n # ns) (res, rs0) = fold ?F ns (res1, rs1)"
    by (simp only: fold_simps step comp_apply)
  have r1: "case res1 of Some s \<Rightarrow> res = Some s \<or> (isValidMove g row col n \<and> completion (set_cell g row col n) s)
      | None \<Rightarrow> res = None \<and> (isValidMove g row col n \<longrightarrow> \<not> (\<exists>s. completion (set_cell g row col n) s))"
  proof (cases res)
    case (Some a)
    with step show ?thesis by auto
  next
    case None
    show ?thesis
    proof (cases "isValidMove g row col n")
      case True
      with None step have "res1 = fst (solvePuzzle (set_cell g row col n) rs0)" by auto
      with Cons.prems [of n rs0] True None show ?thesis by (auto split: option.splits)
    next
      case False
      with None step show ?thesis by auto
    qed
  qed
  from Cons.IH [OF ih, of res1 rs1] r1 show ?case
    unfolding f by (auto split: option.splits)
qed

lemma solvePuzzle_correct:
  "goodgrid g \<Longrightarrow>
   (case fst (solvePuzzle g rs) of
      Some s \<Rightarrow> completion g s
    | None \<Rightarrow> \<not> (\<exists>s. completion g s))"
proof (induction g rs rule: solvePuzzle.induct)
  case (1 g rs)
  from "1.prems" have g: "wf_grid g" "in_range g" "pcons g" by (simp_all add: goodgrid_def)
  show ?case
  proof (cases "findEmptyCell g")
    case None
    then have "emptyCells g = []" by (simp add: findEmptyCell_None)
    from completion_full [OF g this, of g] None show ?thesis
      by (subst solvePuzzle.simps) simp
  next
    case (Some rc)
    obtain row col where rc: "rc = (row, col)" by (cases rc)
    with Some have f: "findEmptyCell g = Some (row, col)" by simp
    obtain numbers rs1 where sh: "shuffleArray [1, 2, 3, 4, 5, 6, 7, 8, 9] rs = (numbers, rs1)"
      by (cases "shuffleArray [1, 2, 3, 4, 5, 6, 7, 8, 9] rs")
    then have "numbers = fst (shuffleArray [1, 2, 3, 4, 5, 6, 7, 8, 9] rs)" by simp
    then have "set numbers = set [1, 2, 3, 4, 5, 6, 7, 8, 9::nat]" by (simp only: shuffleArray_set)
    also have "\<dots> = set [1..<10]" by code_simp
    finally have ns: "set numbers = set [1..<10]" .
    have ih: "case fst (solvePuzzle (set_cell g row col num) rs') of
         Some s \<Rightarrow> completion (set_cell g row col num) s
       | None \<Rightarrow> \<not> (\<exists>s. completion (set_cell g row col num) s)"
      if "num \<in> set numbers" "isValidMove g row col num" for num rs'
    proof -
      from that(1) ns have n: "num \<in> set [1..<10]" by simp
      have nn: "\<not> (None :: grid option) \<noteq> None" by simp
      from "1.IH" [OF f refl refl sh [symmetric] that(1) nn that(2) goodgrid_set_cell [OF "1.prems" f n that(2)], of rs']
      show ?thesis .
    qed
    have eq: "solvePuzzle g rs = fold (\<lambda>num (result, rs').
                      if result \<noteq> None then (result, rs')
                      else if isValidMove g row col num then solvePuzzle (set_cell g row col num) rs'
                      else (None, rs'))
                numbers (None, rs1)"
      by (subst solvePuzzle.simps) (simp only: f option.case prod.case sh Let_def)
    from solve_fold [of numbers g row col None rs1, OF ih]
    show ?thesis unfolding eq [symmetric] ns
      using completions_split [OF "1.prems" f] by (auto split: option.splits)
  qed
qed

subsection \<open>shuffleGrid keeps a solved grid solved\<close>

text \<open>
  Each row-band step of \<^verbatim>\<open>shuffleGrid\<close> replaces the three rows of a band by a permutation
  of them, each column-band step does the same with the three columns of a band. Every
  assignment of the source copies (\<^verbatim>\<open>tempGrid\<close> and \<^verbatim>\<open>tempRow\<close> are fresh copies), so no
  two rows of the grid are ever the same array and the model by value loses nothing.
\<close>

definition band_perm :: "nat \<Rightarrow> nat list \<Rightarrow> nat \<Rightarrow> nat" where
  "band_perm grp sh r = (if r div 3 = grp then sh ! (r mod 3) else r)"

definition band_map :: "(nat \<Rightarrow> nat) \<Rightarrow> bool" where
  "band_map f = ((\<forall>r<9. f r < 9 \<and> f r div 3 = r div 3) \<and> inj_on f {..<9})"

lemma band_map_id: "band_map (\<lambda>r. r)"
  by (simp add: band_map_def)

lemma solved_permuted:
  assumes "solved g" "wf_grid g'" "band_map f" "band_map h"
    and eq: "\<And>r c. r < 9 \<Longrightarrow> c < 9 \<Longrightarrow> g' ! r ! c = g ! f r ! h c"
  shows "solved g'"
proof (rule solvedI [OF assms(2)])
  from assms(1) have fl: "filled g" and pc: "pcons g" by (simp_all add: solved_iff)
  have fb: "\<And>r. r < 9 \<Longrightarrow> f r < 9 \<and> f r div 3 = r div 3" and fi: "inj_on f {..<9}"
    using assms(3) by (auto simp: band_map_def)
  have hb: "\<And>r. r < 9 \<Longrightarrow> h r < 9 \<and> h r div 3 = r div 3" and hi: "inj_on h {..<9}"
    using assms(4) by (auto simp: band_map_def)
  have val: "cell_at g' (r, c) = cell_at g (f r, h c)" if "r < 9" "c < 9" for r c
    using eq [OF that] by (simp add: cell_at_def)
  have mem: "(f r, h c) \<in> set cells" if "r < 9" "c < 9" for r c
    using fb [OF that(1)] hb [OF that(2)] by (simp add: cells_set)
  show "filled g'"
    unfolding filled_def
  proof
    fix p assume "p \<in> set cells"
    then obtain r c where p: "p = (r, c)" "r < 9" "c < 9" by (auto simp: cells_set)
    from fl mem [OF p(2,3)] have "1 \<le> cell_at g (f r, h c) \<and> cell_at g (f r, h c) \<le> 9"
      unfolding filled_def by blast
    then show "1 \<le> cell_at g' p \<and> cell_at g' p \<le> 9" by (simp add: p val)
  qed
  show "pcons g'"
    unfolding pcons_def
  proof (intro ballI impI)
    fix p q assume "p \<in> set cells" "q \<in> set cells"
      and a: "p \<noteq> q \<and> peers p q \<and> cell_at g' p \<noteq> 0"
    then obtain r c r' c' where p: "p = (r, c)" "r < 9" "c < 9" and q: "q = (r', c')" "r' < 9" "c' < 9"
      by (auto simp: cells_set)
    have ne: "(f r, h c) \<noteq> (f r', h c')"
    proof
      assume "(f r, h c) = (f r', h c')"
      then have "f r = f r'" "h c = h c'" by simp_all
      with fi hi p q have "r = r'" "c = c'" by (auto dest: inj_onD)
      with a p q show False by simp
    qed
    have "peers (f r, h c) (f r', h c')"
      using a fb [OF p(2)] fb [OF q(2)] hb [OF p(3)] hb [OF q(3)]
      unfolding peers_def p q by auto
    moreover have "cell_at g (f r, h c) \<noteq> 0" using a by (simp add: p val)
    ultimately have "cell_at g (f r, h c) \<noteq> cell_at g (f r', h c')"
      using pc ne mem [OF p(2,3)] mem [OF q(2,3)] unfolding pcons_def by blast
    then show "cell_at g' p \<noteq> cell_at g' q" by (simp add: p q val)
  qed
qed

lemma shuffled3:
  assumes "grp < 3" "sh = fst (shuffleArray [grp * 3, grp * 3 + 1, grp * 3 + 2] rs)"
  shows "length sh = 3 \<and> distinct sh \<and> set sh = {grp * 3, grp * 3 + 1, grp * 3 + 2}"
proof -
  have m: "mset sh = mset [grp * 3, grp * 3 + 1, grp * 3 + 2]"
    unfolding assms(2) by (rule shuffleArray_mset)
  then have "length sh = length [grp * 3, grp * 3 + 1, grp * 3 + 2]" by (rule mset_eq_length)
  moreover have "distinct sh = distinct [grp * 3, grp * 3 + 1, grp * 3 + 2]"
    using m by (rule mset_eq_imp_distinct_iff)
  moreover have "set sh = set [grp * 3, grp * 3 + 1, grp * 3 + 2]" using m by (rule mset_eq_setD)
  ultimately show ?thesis by simp
qed

lemma band_perm_map:
  assumes "grp < 3" "length sh = 3" "distinct sh" "set sh = {grp * 3, grp * 3 + 1, grp * 3 + 2}"
  shows "band_map (band_perm grp sh)"
  unfolding band_map_def
proof (intro conjI allI impI inj_onI)
  fix r :: nat assume r: "r < 9"
  show "band_perm grp sh r < 9"
  proof (cases "r div 3 = grp")
    case True
    have "sh ! (r mod 3) \<in> set sh" using assms(2) by (intro nth_mem) simp
    with assms(4) assms(1) have "sh ! (r mod 3) < 9" by auto
    with True show ?thesis by (simp add: band_perm_def)
  next
    case False
    with r show ?thesis by (simp add: band_perm_def)
  qed
  show "band_perm grp sh r div 3 = r div 3"
  proof (cases "r div 3 = grp")
    case True
    have "sh ! (r mod 3) \<in> set sh" using assms(2) by (intro nth_mem) simp
    with assms(4) have "sh ! (r mod 3) div 3 = grp" by auto
    with True show ?thesis by (simp add: band_perm_def)
  next
    case False
    then show ?thesis by (simp add: band_perm_def)
  qed
next
  fix r r' :: nat
  assume rr: "r \<in> {..<9}" "r' \<in> {..<9}" and e: "band_perm grp sh r = band_perm grp sh r'"
  have d: "band_perm grp sh x div 3 = x div 3" if "x < 9" for x
  proof (cases "x div 3 = grp")
    case True
    have "sh ! (x mod 3) \<in> set sh" using assms(2) by (intro nth_mem) simp
    with assms(4) have "sh ! (x mod 3) div 3 = grp" by auto
    with True show ?thesis by (simp add: band_perm_def)
  next
    case False
    then show ?thesis by (simp add: band_perm_def)
  qed
  from rr e d [of r] d [of r'] have dv: "r div 3 = r' div 3" by simp
  show "r = r'"
  proof (cases "r div 3 = grp")
    case True
    with dv e have "sh ! (r mod 3) = sh ! (r' mod 3)" by (simp add: band_perm_def)
    with assms(2,3) have "r mod 3 = r' mod 3" by (simp add: nth_eq_iff_index_eq)
    with dv show ?thesis by (metis div_mult_mod_eq)
  next
    case False
    with dv e show ?thesis by (simp add: band_perm_def)
  qed
qed

lemma upt3: "[0..<3] = [0, 1, 2]"
  by code_simp

lemma band_index: "i < 3 \<Longrightarrow> (r = grp * 3 + i) = (r div 3 = grp \<and> r mod 3 = i)" for r grp i :: nat
  by auto

lemma update3_nth:
  assumes "a + 2 < length xs"
  shows "xs[a := x, a + 1 := y, a + 2 := z] ! a = x"
    and "xs[a := x, a + 1 := y, a + 2 := z] ! (a + 1) = y"
    and "xs[a := x, a + 1 := y, a + 2 := z] ! (a + 2) = z"
  using assms by (simp_all add: nth_list_update)

lemma update3_other:
  assumes "r \<noteq> a" "r \<noteq> a + 1" "r \<noteq> a + 2"
  shows "xs[a := x, a + 1 := y, a + 2 := z] ! r = xs ! r"
  using assms by simp

lemma update3_band:
  assumes "length xs = 9" "grp < 3" "r < 9"
  shows "xs[grp * 3 := f 0, grp * 3 + 1 := f 1, grp * 3 + 2 := f 2] ! r
       = (if r div 3 = grp then f (r mod 3) else xs ! r)"
proof (cases "r div 3 = grp")
  case True
  have l: "grp * 3 + 2 < length xs" using assms(1,2) by simp
  have r: "r = grp * 3 + r mod 3" using True by (metis mult.commute div_mult_mod_eq)
  have "r mod 3 = 0 \<or> r mod 3 = 1 \<or> r mod 3 = 2" by linarith
  then show ?thesis
  proof (elim disjE)
    assume m: "r mod 3 = 0"
    with r have "r = grp * 3" by simp
    with True m update3_nth(1) [OF l] show ?thesis by simp
  next
    assume m: "r mod 3 = 1"
    with r have "r = grp * 3 + 1" by simp
    with True m update3_nth(2) [OF l] show ?thesis by simp
  next
    assume m: "r mod 3 = 2"
    with r have "r = grp * 3 + 2" by simp
    with True m update3_nth(3) [OF l] show ?thesis by simp
  qed
next
  case False
  then have "r \<noteq> grp * 3" "r \<noteq> grp * 3 + 1" "r \<noteq> grp * 3 + 2" by auto
  from update3_other [OF this] False show ?thesis by simp
qed

lemma rows_result:
  assumes "length g = 9" "grp < 3" "r < 9"
  shows "fold (\<lambda>i g'. g'[grp * 3 + i := tempGrid ! (sh ! i)]) [0..<3] g ! r
       = (if r div 3 = grp then tempGrid ! (sh ! (r mod 3)) else g ! r)"
proof -
  have "fold (\<lambda>i g'. g'[grp * 3 + i := tempGrid ! (sh ! i)]) [0..<3] g
      = g[grp * 3 := tempGrid ! (sh ! 0), grp * 3 + 1 := tempGrid ! (sh ! 1), grp * 3 + 2 := tempGrid ! (sh ! 2)]"
    unfolding upt3 by simp
  then show ?thesis using update3_band [OF assms, of "\<lambda>i. tempGrid ! (sh ! i)"] by simp
qed

lemma rows_length:
  "length (fold (\<lambda>i g'. g'[grp * 3 + i := tempGrid ! (sh ! i)]) [0..<3] g) = length g"
  unfolding upt3 by simp

lemma shuffle_rows_solved:
  assumes "solved g" "grp < 3"
  shows "solved (fst (shuffle_rows grp (g, rs)))"
proof -
  obtain sh rs' where s: "shuffleArray [grp * 3, grp * 3 + 1, grp * 3 + 2] rs = (sh, rs')"
    by (cases "shuffleArray [grp * 3, grp * 3 + 1, grp * 3 + 2] rs")
  then have "sh = fst (shuffleArray [grp * 3, grp * 3 + 1, grp * 3 + 2] rs)" by simp
  from shuffled3 [OF assms(2) this]
  have sh: "length sh = 3" "distinct sh" "set sh = {grp * 3, grp * 3 + 1, grp * 3 + 2}" by auto
  let ?g' = "fold (\<lambda>i g'. g'[grp * 3 + i := g ! (sh ! i)]) [0..<3] g"
  have r: "fst (shuffle_rows grp (g, rs)) = ?g'"
    by (simp only: shuffle_rows_def Let_def prod.case s fst_conv)
  from assms(1) have wf: "wf_grid g" by (simp add: solved_def)
  then have len: "length g = 9" and rowlen: "\<And>r. r < 9 \<Longrightarrow> length (g ! r) = 9"
    by (simp_all add: wf_grid_def list_all_length)
  have bm: "band_map (band_perm grp sh)" using assms(2) sh by (rule band_perm_map)
  then have bnd: "\<And>r. r < 9 \<Longrightarrow> band_perm grp sh r < 9" by (simp add: band_map_def)
  have nth: "?g' ! r = g ! band_perm grp sh r" if "r < 9" for r
    using rows_result [OF len assms(2) that, of g sh] by (simp add: band_perm_def)
  have "wf_grid ?g'"
    unfolding wf_grid_def list_all_length
  proof (intro conjI allI impI)
    show "length ?g' = 9" using len by (simp add: rows_length)
  next
    fix n assume "n < length ?g'"
    then have n: "n < 9" using len by (simp add: rows_length)
    show "length (?g' ! n) = 9" using nth [OF n] rowlen [OF bnd [OF n]] by simp
  qed
  moreover have "?g' ! r ! c = g ! band_perm grp sh r ! (\<lambda>c. c) c" if "r < 9" "c < 9" for r c
    using nth [OF that(1)] by simp
  ultimately have "solved ?g'"
    using assms(1) bm band_map_id by (intro solved_permuted [of g ?g' "band_perm grp sh" "\<lambda>c. c"])
  with r show ?thesis by simp
qed

definition permute_row :: "nat \<Rightarrow> nat list \<Rightarrow> nat list \<Rightarrow> nat list" where
  "permute_row grp sh tempRow =
     tempRow[grp * 3 := tempRow ! (sh ! 0), grp * 3 + 1 := tempRow ! (sh ! 1), grp * 3 + 2 := tempRow ! (sh ! 2)]"

lemma cols_inner:
  assumes "row < length g"
  shows "fold (\<lambda>i g''. set_cell g'' row (grp * 3 + i) (tempRow ! (sh ! i))) [0..<3] g
       = g[row := (g ! row)[grp * 3 := tempRow ! (sh ! 0), grp * 3 + 1 := tempRow ! (sh ! 1), grp * 3 + 2 := tempRow ! (sh ! 2)]]"
  unfolding upt3 using assms by (simp add: set_cell_def)

lemma cols_outer:
  assumes "distinct rows" "\<forall>r\<in>set rows. r < length g"
  shows "fold (\<lambda>row g'. let tempRow = g' ! row
                 in fold (\<lambda>i g''. set_cell g'' row (grp * 3 + i) (tempRow ! (sh ! i))) [0..<3] g') rows g
       = map (\<lambda>r. if r \<in> set rows then permute_row grp sh (g ! r) else g ! r) [0..<length g]"
  using assms
proof (induction rows arbitrary: g)
  case Nil
  then show ?case by (simp add: map_nth)
next
  case (Cons a rows)
  let ?g1 = "g[a := permute_row grp sh (g ! a)]"
  have a: "a < length g" "a \<notin> set rows" using Cons.prems by auto
  have step: "(let tempRow = g ! a in fold (\<lambda>i g''. set_cell g'' a (grp * 3 + i) (tempRow ! (sh ! i))) [0..<3] g) = ?g1"
    using cols_inner [OF a(1)] by (simp add: permute_row_def Let_def)
  have "fold (\<lambda>row g'. let tempRow = g' ! row
                 in fold (\<lambda>i g''. set_cell g'' row (grp * 3 + i) (tempRow ! (sh ! i))) [0..<3] g') rows ?g1
       = map (\<lambda>r. if r \<in> set rows then permute_row grp sh (?g1 ! r) else ?g1 ! r) [0..<length ?g1]"
    using Cons.prems by (intro Cons.IH) auto
  also have "\<dots> = map (\<lambda>r. if r \<in> set (a # rows) then permute_row grp sh (g ! r) else g ! r) [0..<length g]"
    using a by (auto simp: nth_list_update)
  finally show ?case by (simp only: fold_simps comp_apply step)
qed

lemma permute_row_nth:
  assumes "length tempRow = 9" "grp < 3" "c < 9"
  shows "permute_row grp sh tempRow ! c = tempRow ! band_perm grp sh c"
  unfolding permute_row_def band_perm_def
  using update3_band [OF assms, of "\<lambda>i. tempRow ! (sh ! i)"] by simp

lemma shuffle_cols_solved:
  assumes "solved g" "grp < 3"
  shows "solved (fst (shuffle_cols grp (g, rs)))"
proof -
  obtain sh rs' where s: "shuffleArray [grp * 3, grp * 3 + 1, grp * 3 + 2] rs = (sh, rs')"
    by (cases "shuffleArray [grp * 3, grp * 3 + 1, grp * 3 + 2] rs")
  then have "sh = fst (shuffleArray [grp * 3, grp * 3 + 1, grp * 3 + 2] rs)" by simp
  from shuffled3 [OF assms(2) this]
  have sh: "length sh = 3" "distinct sh" "set sh = {grp * 3, grp * 3 + 1, grp * 3 + 2}" by auto
  from assms(1) have wf: "wf_grid g" by (simp add: solved_def)
  then have len: "length g = 9" and rowlen: "\<And>r. r < 9 \<Longrightarrow> length (g ! r) = 9"
    by (simp_all add: wf_grid_def list_all_length)
  let ?g' = "map (\<lambda>r. permute_row grp sh (g ! r)) [0..<9]"
  have "fst (shuffle_cols grp (g, rs)) = fold (\<lambda>row g'. let tempRow = g' ! row
                 in fold (\<lambda>i g''. set_cell g'' row (grp * 3 + i) (tempRow ! (sh ! i))) [0..<3] g') [0..<9] g"
    by (simp only: shuffle_cols_def Let_def prod.case s fst_conv)
  also have "\<dots> = map (\<lambda>r. if r \<in> set [0..<9] then permute_row grp sh (g ! r) else g ! r) [0..<length g]"
    using len by (intro cols_outer) auto
  also have "\<dots> = ?g'" using len by simp
  finally have r: "fst (shuffle_cols grp (g, rs)) = ?g'" .
  have bm: "band_map (band_perm grp sh)" using assms(2) sh by (rule band_perm_map)
  have nth: "?g' ! r ! c = g ! (\<lambda>r. r) r ! band_perm grp sh c" if "r < 9" "c < 9" for r c
    using that permute_row_nth [OF rowlen [OF that(1)] assms(2) that(2), of sh] by simp
  have "wf_grid ?g'"
    unfolding wf_grid_def list_all_length using rowlen by (simp add: permute_row_def)
  then have "solved ?g'"
    using assms(1) bm band_map_id nth by (intro solved_permuted [of g ?g' "\<lambda>r. r" "band_perm grp sh"])
  with r show ?thesis by simp
qed

lemma fold_solved:
  assumes "\<And>grp g rs. grp < 3 \<Longrightarrow> solved g \<Longrightarrow> solved (fst (f grp (g, rs)))"
    and "solved (fst st)" "\<forall>grp\<in>set gs. grp < 3"
  shows "solved (fst (fold f gs st))"
  using assms(2,3)
proof (induction gs arbitrary: st)
  case Nil
  then show ?case by simp
next
  case (Cons a gs)
  obtain g rs where st: "st = (g, rs)" by (cases st)
  with Cons.prems assms(1) [of a g rs] have "solved (fst (f a st))" by simp
  with Cons show ?case by simp
qed

lemma shuffleGrid_solved:
  assumes "solved g"
  shows "solved (fst (shuffleGrid g rs))"
  unfolding shuffleGrid_def
  by (intro fold_solved shuffle_cols_solved shuffle_rows_solved) (simp_all add: assms)

lemma empty_grid_good: "goodgrid empty_grid"
proof -
  have "wf_grid empty_grid" "in_range empty_grid" "consistent empty_grid" by code_simp+
  then show ?thesis by (rule goodgridI)
qed

lemma empty_grid_completion: "completion empty_grid canonical"
  by code_simp

lemma generateCompleteGrid_solved:
  "solved (grid (fst (generateCompleteGrid e rs)))"
proof -
  obtain res rs1 where r: "solvePuzzle empty_grid rs = (res, rs1)"
    by (cases "solvePuzzle empty_grid rs")
  from solvePuzzle_correct [OF empty_grid_good, of rs] r empty_grid_completion
  obtain s where s: "res = Some s" "completion empty_grid s" by (cases res) auto
  then have "solved s" by (simp add: completion_iff)
  then have sv: "solved (fst (shuffleGrid s rs1))" by (rule shuffleGrid_solved)
  obtain g2 rs2 where g2: "shuffleGrid s rs1 = (g2, rs2)" by (cases "shuffleGrid s rs1")
  with sv show ?thesis
    by (simp add: generateCompleteGrid_def r s(1) Let_def)
qed

subsection \<open>The clue-removal loop\<close>

declare createPuzzle_loop.simps [simp del]

definition clue_count :: "grid \<Rightarrow> nat" where
  "clue_count g = length (filter (\<lambda>(row, col). \<not> cell_is g row col 0) cells)"

lemma random_below_less: "0 < n \<Longrightarrow> fst (random_below n rs) < n"
  by (simp add: random_below_def)

lemma createPuzzle_loop_invariant:
  assumes "I g attempts removed"
    and rem: "\<And>g a r row col. I g a r \<Longrightarrow> r < ctr \<Longrightarrow> a < 1000 \<Longrightarrow> row < 9 \<Longrightarrow> col < 9 \<Longrightarrow>
        \<not> cell_is g row col 0 \<Longrightarrow> hasUniqueSolution (set_cell g row col 0) \<Longrightarrow>
        I (set_cell g row col 0) (a + 1) (r + 1)"
    and skip: "\<And>g a r. I g a r \<Longrightarrow> r < ctr \<Longrightarrow> a < 1000 \<Longrightarrow> I g (a + 1) r"
  shows "case createPuzzle_loop ctr g attempts removed rs of
           ((g', a', r'), rs') \<Rightarrow> I g' a' r' \<and> \<not> (r' < ctr \<and> a' < 1000)"
  using assms
proof (induction ctr g attempts removed rs rule: createPuzzle_loop.induct)
  case (1 ctr g attempts removed rs)
  note rem = "1.prems"(2) and skip = "1.prems"(3)
  show ?case
  proof (cases "removed < ctr \<and> attempts < 1000")
    case False
    have "createPuzzle_loop ctr g attempts removed rs = ((g, attempts, removed), rs)"
      by (subst createPuzzle_loop.simps) (simp only: False if_False)
    with False "1.prems"(1) show ?thesis by auto
  next
    case True
    obtain row rs1 where r1: "random_below 9 rs = (row, rs1)" by (cases "random_below 9 rs")
    obtain col rs2 where r2: "random_below 9 rs1 = (col, rs2)" by (cases "random_below 9 rs1")
    have row: "row < 9" using random_below_less [of 9 rs] r1 by simp
    have col: "col < 9" using random_below_less [of 9 rs1] r2 by simp
    show ?thesis
    proof (cases "cell_is g row col 0")
      case e: True
      have "I g (attempts + 1) removed" using "1.prems"(1) True by (intro skip) auto
      moreover have nn: "\<not> \<not> cell_is g row col 0" using e by simp
      ultimately have "case createPuzzle_loop ctr g (attempts + 1) removed rs2 of
           ((g', a', r'), rs') \<Rightarrow> I g' a' r' \<and> \<not> (r' < ctr \<and> a' < 1000)"
        by (intro "1.IH"(3) [OF True refl r1 [symmetric] refl r2 [symmetric] nn _ rem skip])
      with e
      show ?thesis using True by (subst createPuzzle_loop.simps) (simp add: r1 r2)
    next
      case e: False
      show ?thesis
      proof (cases "hasUniqueSolution (set_cell g row col 0)")
        case u: True
        have "I (set_cell g row col 0) (attempts + 1) (removed + 1)"
          using "1.prems"(1) True row col e u by (intro rem) auto
        from "1.IH"(1) [OF True refl r1 [symmetric] refl r2 [symmetric] e refl refl u this rem skip]
        show ?thesis using True e u by (subst createPuzzle_loop.simps) (simp add: r1 r2 Let_def)
      next
        case u: False
        have "I g (attempts + 1) removed" using "1.prems"(1) True by (intro skip) auto
        then have "I (set_cell (set_cell g row col 0) row col (g ! row ! col)) (attempts + 1) removed"
          by (simp add: set_cell_restore)
        from "1.IH"(2) [OF True refl r1 [symmetric] refl r2 [symmetric] e refl refl u this rem skip]
        show ?thesis using True e u by (subst createPuzzle_loop.simps) (simp add: r1 r2 Let_def)
      qed
    qed
  qed
qed

lemma distinct_cells: "distinct cells"
  by (simp add: cells_def distinct_product)

lemma length_cells: "length cells = 81"
  by (simp add: cells_def)

lemma clue_removed:
  assumes "wf_grid g" "row < 9" "col < 9" "\<not> cell_is g row col 0"
  shows "Suc (clue_count (set_cell g row col 0)) = clue_count g"
proof -
  let ?P = "\<lambda>(r, c). \<not> cell_is g r c 0"
  have in_shape: "row < length g \<and> col < length (g ! row)"
    using assms(1,2,3) by (simp add: wf_grid_def list_all_length)
  have "(\<not> cell_is (set_cell g row col 0) r c 0) = (\<not> cell_is g r c 0 \<and> (r, c) \<noteq> (row, col))" for r c
    using in_shape by (auto simp: cell_is_set_cell)
  then have "filter (\<lambda>(r, c). \<not> cell_is (set_cell g row col 0) r c 0) cells
      = filter (\<lambda>p. p \<noteq> (row, col)) (filter ?P cells)"
    unfolding filter_filter by (intro filter_cong refl) auto
  also have "\<dots> = removeAll (row, col) (filter ?P cells)"
    by (simp add: removeAll_filter_not_eq) metis
  also have "\<dots> = remove1 (row, col) (filter ?P cells)"
    using distinct_cells by (simp add: distinct_remove1_removeAll)
  finally have "clue_count (set_cell g row col 0) = length (remove1 (row, col) (filter ?P cells))"
    by (simp add: clue_count_def)
  moreover have m: "(row, col) \<in> set (filter ?P cells)" using assms(2,3,4) by (simp add: cells_set)
  then have "length (filter ?P cells) > 0" by (metis length_pos_if_in_set)
  ultimately show ?thesis using m by (simp add: clue_count_def length_remove1)
qed

lemma clue_count_filled:
  assumes "wf_grid g" "filled g"
  shows "clue_count g = 81"
proof -
  have "\<not> cell_is g row col 0" if "(row, col) \<in> set cells" for row col
    using that assms unfolding filled_def cell_at_def by (fastforce simp: cells_set)
  then have "filter (\<lambda>(row, col). \<not> cell_is g row col 0) cells = cells"
    by (auto simp: filter_id_conv)
  then show ?thesis by (simp add: clue_count_def length_cells)
qed

lemma createPuzzle_loop_counts:
  assumes "wf_grid g" "createPuzzle_loop ctr g 0 0 rs = ((g', attempts, removed), rs')"
  shows "wf_grid g' \<and> attempts \<le> 1000 \<and> removed \<le> ctr \<and> clue_count g' + removed = clue_count g \<and>
         (attempts < 1000 \<longrightarrow> removed = ctr)"
proof -
  let ?I = "\<lambda>g a r. wf_grid g \<and> a \<le> 1000 \<and> r \<le> ctr \<and> clue_count g + r = clue_count g0"
  have "case createPuzzle_loop ctr g 0 0 rs of
           ((g', a', r'), rs') \<Rightarrow> (wf_grid g' \<and> a' \<le> 1000 \<and> r' \<le> ctr \<and> clue_count g' + r' = clue_count g)
             \<and> \<not> (r' < ctr \<and> a' < 1000)"
  proof (rule createPuzzle_loop_invariant [where I = "\<lambda>g' a r. wf_grid g' \<and> a \<le> 1000 \<and> r \<le> ctr \<and> clue_count g' + r = clue_count g"])
    show "wf_grid g \<and> 0 \<le> (1000::nat) \<and> 0 \<le> ctr \<and> clue_count g + 0 = clue_count g"
      using assms(1) by simp
  next
    fix h :: grid and a r row col :: nat
    assume "wf_grid h \<and> a \<le> 1000 \<and> r \<le> ctr \<and> clue_count h + r = clue_count g"
      "r < ctr" "a < 1000" "row < 9" "col < 9" "\<not> cell_is h row col 0"
    then show "wf_grid (set_cell h row col 0) \<and> a + 1 \<le> 1000 \<and> r + 1 \<le> ctr \<and>
        clue_count (set_cell h row col 0) + (r + 1) = clue_count g"
      using clue_removed [of h row col] by auto
  next
    fix h :: grid and a r :: nat
    assume "wf_grid h \<and> a \<le> 1000 \<and> r \<le> ctr \<and> clue_count h + r = clue_count g" "r < ctr" "a < 1000"
    then show "wf_grid h \<and> a + 1 \<le> 1000 \<and> r \<le> ctr \<and> clue_count h + r = clue_count g" by simp
  qed
  with assms(2) show ?thesis by auto
qed

subsection \<open>What generatePuzzle returns\<close>

definition subgrid :: "grid \<Rightarrow> grid \<Rightarrow> bool" where
  "subgrid g sol = (\<forall>p\<in>set cells. cell_at g p \<noteq> 0 \<longrightarrow> cell_at g p = cell_at sol p)"

lemma in_rangeI:
  assumes "wf_grid g" "\<And>p. p \<in> set cells \<Longrightarrow> cell_at g p \<le> 9"
  shows "in_range g"
  unfolding in_range_def list_all_length
proof (intro allI impI)
  fix r c assume "r < length g" "c < length (g ! r)"
  with assms(1) have "r < 9" "c < 9" by (simp_all add: wf_grid_def list_all_length)
  then have "(r, c) \<in> set cells" by (simp add: cells_set)
  from assms(2) [OF this] show "g ! r ! c \<le> 9" by (simp add: cell_at_def)
qed

lemma subgrid_good:
  assumes "solved sol" "wf_grid g" "subgrid g sol"
  shows "goodgrid g \<and> completion g sol"
proof -
  from assms(1) have fl: "filled sol" and pc: "pcons sol" by (simp_all add: solved_iff)
  have le: "cell_at g p \<le> 9" if "p \<in> set cells" for p
  proof (cases "cell_at g p = 0")
    case True
    then show ?thesis by simp
  next
    case False
    with assms(3) that have "cell_at g p = cell_at sol p" unfolding subgrid_def by blast
    with fl that show ?thesis unfolding filled_def by simp
  qed
  have "pcons g"
    unfolding pcons_def
  proof (intro ballI impI notI)
    fix p q assume pq: "p \<in> set cells" "q \<in> set cells"
      and a: "p \<noteq> q \<and> peers p q \<and> cell_at g p \<noteq> 0" and e: "cell_at g p = cell_at g q"
    from a e assms(3) pq have "cell_at g p = cell_at sol p" "cell_at g q = cell_at sol q"
      unfolding subgrid_def by auto
    with a e have "cell_at sol p = cell_at sol q" "cell_at sol p \<noteq> 0" by simp_all
    with pc pq a show False unfolding pcons_def by blast
  qed
  with assms(2) le have "goodgrid g" by (simp add: goodgrid_def in_rangeI)
  moreover have "completion g sol"
    unfolding completion_iff using assms(1,3) by (auto simp: subgrid_def)
  ultimately show ?thesis by simp
qed

lemma subgrid_refl: "subgrid g g"
  by (simp add: subgrid_def)

lemma subgrid_clear:
  assumes "wf_grid g" "subgrid g sol"
  shows "subgrid (set_cell g row col 0) sol"
  unfolding subgrid_def using assms by (auto simp: cell_at_set_cell subgrid_def)

lemma solved_unique: 
  assumes "solved g"
  shows "hasUniqueSolution g"
proof -
  from assms have "wf_grid g" "filled g" by (simp_all add: solved_iff)
  then have "emptyCells g = []" unfolding emptyCells_Nil [OF \<open>wf_grid g\<close>] filled_def by fastforce
  then have "findEmptyCell g = None" by (simp add: findEmptyCell_None)
  then have "all_solutions g = [g]" by (simp add: all_solutions.simps)
  then show ?thesis by (simp add: hasUniqueSolution_length)
qed

lemma createPuzzle_loop_unique:
  assumes "solved sol" "createPuzzle_loop ctr sol 0 0 rs = ((g', attempts, removed), rs')"
  shows "wf_grid g' \<and> hasUniqueSolution g' \<and> subgrid g' sol"
proof -
  have "case createPuzzle_loop ctr sol 0 0 rs of
           ((g', a', r'), rs') \<Rightarrow> (wf_grid g' \<and> hasUniqueSolution g' \<and> subgrid g' sol)
             \<and> \<not> (r' < ctr \<and> a' < 1000)"
  proof (rule createPuzzle_loop_invariant [where I = "\<lambda>g' a r. wf_grid g' \<and> hasUniqueSolution g' \<and> subgrid g' sol"])
    show "wf_grid sol \<and> hasUniqueSolution sol \<and> subgrid sol sol"
      using assms(1) solved_unique subgrid_refl by (simp add: solved_def)
  next
    fix h :: grid and a r row col :: nat
    assume "wf_grid h \<and> hasUniqueSolution h \<and> subgrid h sol" "hasUniqueSolution (set_cell h row col 0)"
    then show "wf_grid (set_cell h row col 0) \<and> hasUniqueSolution (set_cell h row col 0) \<and> subgrid (set_cell h row col 0) sol"
      by (simp add: subgrid_clear)
  next
    fix h :: grid and a r :: nat
    assume "wf_grid h \<and> hasUniqueSolution h \<and> subgrid h sol"
    then show "wf_grid h \<and> hasUniqueSolution h \<and> subgrid h sol" .
  qed
  with assms(2) show ?thesis by auto
qed

lemma generateCompleteGrid_fields:
  "difficulty (fst (generateCompleteGrid e rs)) = difficulty e \<and>
   solution (fst (generateCompleteGrid e rs)) = solution e \<and>
   initialGrid (fst (generateCompleteGrid e rs)) = initialGrid e"
  by (simp add: generateCompleteGrid_def Let_def split: prod.splits)

definition generated :: "string \<Rightarrow> engine \<Rightarrow> rng \<Rightarrow> engine" where
  "generated d e rs =
     (let e2 = fst (generateCompleteGrid (e\<lparr>difficulty := d\<rparr>) rs) in e2\<lparr>solution := grid e2\<rparr>)"

lemma generated_props:
  "solved (grid (generated d e rs)) \<and> solution (generated d e rs) = grid (generated d e rs) \<and>
   difficulty (generated d e rs) = d \<and> initialGrid (generated d e rs) = initialGrid e"
  using generateCompleteGrid_solved [of "e\<lparr>difficulty := d\<rparr>" rs]
        generateCompleteGrid_fields [of "e\<lparr>difficulty := d\<rparr>" rs]
  by (simp add: generated_def Let_def)

lemma generatePuzzle_eq:
  "generatePuzzle (Some d) e rs =
     (case createPuzzle (generated d e rs) (snd (generateCompleteGrid (e\<lparr>difficulty := d\<rparr>) rs)) of
        (Inl err, e4, rs3) \<Rightarrow> (Inl err, e4, rs3)
      | (Inr u, e4, rs3) \<Rightarrow>
          (Inr \<lparr>puzzle_grid = grid e4, puzzle_solution = solution e4, puzzle_difficulty = difficulty e4\<rparr>,
           e4\<lparr>initialGrid := grid e4\<rparr>, rs3))"
  by (simp add: generatePuzzle_def generated_def Let_def split: prod.splits sum.splits)

lemma generatePuzzle_known:
  assumes "difficultySettings d = Some clues"
    and "createPuzzle_loop (81 - clues) (grid (generated d e rs)) 0 0
           (snd (generateCompleteGrid (e\<lparr>difficulty := d\<rparr>) rs)) = ((g', attempts, removed), rs')"
  shows "generatePuzzle (Some d) e rs =
     (Inr \<lparr>puzzle_grid = g', puzzle_solution = grid (generated d e rs), puzzle_difficulty = d\<rparr>,
      (generated d e rs)\<lparr>grid := g', initialGrid := g'\<rparr>, rs')"
  using assms generated_props [of d e rs]
  by (simp add: generatePuzzle_eq createPuzzle_def Let_def)

lemma generatePuzzle_unknown:
  assumes "difficultySettings d = None" "d \<notin> set object_prototype_keys"
  shows "generatePuzzle (Some d) e rs =
     (Inl TypeError, generated d e rs, snd (generateCompleteGrid (e\<lparr>difficulty := d\<rparr>) rs))"
  using assms generated_props [of d e rs]
  by (simp add: generatePuzzle_eq createPuzzle_def Let_def)

lemma generatePuzzle_inherited:
  assumes "difficultySettings d = None" "d \<in> set object_prototype_keys"
  shows "generatePuzzle (Some d) e rs =
     (Inr \<lparr>puzzle_grid = grid (generated d e rs), puzzle_solution = grid (generated d e rs), puzzle_difficulty = d\<rparr>,
      (generated d e rs)\<lparr>initialGrid := grid (generated d e rs)\<rparr>,
      snd (generateCompleteGrid (e\<lparr>difficulty := d\<rparr>) rs))"
  using assms generated_props [of d e rs]
  by (simp add: generatePuzzle_eq createPuzzle_def Let_def)

definition zero_rng :: rng where
  "zero_rng = (\<lambda>i. 0)"

lemma known_difficulty:
  assumes "d \<in> set [''easy'', ''medium'', ''hard'', ''expert'']"
  shows "\<exists>clues. difficultySettings d = Some clues \<and> clues \<le> 81"
  using assms by (auto simp: difficultySettings_def)

lemma unknown_difficulty:
  assumes "d \<notin> set [''easy'', ''medium'', ''hard'', ''expert'']"
  shows "difficultySettings d = None"
  using assms by (simp add: difficultySettings_def)

lemma generatePuzzle_default: "generatePuzzle None e rs = generatePuzzle (Some ''medium'') e rs"
  by (simp add: generatePuzzle_def)

lemma generatePuzzle_solution_solved:
  assumes "generatePuzzle arg e rs = (Inr p, st)"
  shows "solved (puzzle_solution p)"
proof -
  obtain d where d: "generatePuzzle arg e rs = generatePuzzle (Some d) e rs"
    by (cases arg) (auto simp: generatePuzzle_default)
  have sv: "solved (grid (generated d e rs))" using generated_props [of d e rs] by simp
  show ?thesis
  proof (cases "difficultySettings d")
    case (Some clues)
    obtain g' a r rs' where "createPuzzle_loop (81 - clues) (grid (generated d e rs)) 0 0
           (snd (generateCompleteGrid (e\<lparr>difficulty := d\<rparr>) rs)) = ((g', a, r), rs')"
      by (metis prod_cases3 surj_pair)
    from generatePuzzle_known [OF Some this] assms d sv show ?thesis by auto
  next
    case None
    show ?thesis
    proof (cases "d \<in> set object_prototype_keys")
      case True
      from generatePuzzle_inherited [OF None True, of e rs] assms d sv show ?thesis by auto
    next
      case False
      from generatePuzzle_unknown [OF None False, of e rs] assms d show ?thesis by simp
    qed
  qed
qed

lemma unique_is_solution:
  assumes "solved sol" "wf_grid g'" "hasUniqueSolution g'" "subgrid g' sol"
  shows "completion g' sol \<and> (\<forall>s. completion g' s \<longrightarrow> s = sol)"
proof -
  from subgrid_good [OF assms(1,2,4)] have good: "goodgrid g'" and comp: "completion g' sol" by simp_all
  from assms(3) have "length (all_solutions g') = 1" by (simp add: hasUniqueSolution_length)
  with unique_completion [OF good] have "\<exists>!s. completion g' s" by blast
  then obtain t where t: "\<And>s. completion g' s \<Longrightarrow> s = t" by (elim ex1E) blast
  from t [OF comp] have "t = sol" by simp
  with t comp show ?thesis by blast
qed

lemma subgrid_cells:
  assumes "subgrid g' sol"
  shows "\<forall>row<9. \<forall>col<9. g' ! row ! col \<noteq> 0 \<longrightarrow> g' ! row ! col = sol ! row ! col"
proof (intro allI impI)
  fix row col :: nat assume "row < 9" "col < 9" "g' ! row ! col \<noteq> 0"
  then have "(row, col) \<in> set cells" "cell_at g' (row, col) \<noteq> 0" by (simp_all add: cells_set cell_at_def)
  with assms have "cell_at g' (row, col) = cell_at sol (row, col)" unfolding subgrid_def by blast
  then show "g' ! row ! col = sol ! row ! col" by (simp add: cell_at_def)
qed

section \<open>The claims\<close>

subsection \<open>isValidMove on an occupied cell\<close>

definition conflicting :: grid where
  "conflicting = set_cell canonical 0 0 3"

text \<open>
  C7: for every grid and every cell (row, col) that already holds a nonzero value v,
  isValidMove(grid, row, col, v) is false: the row scan meets the cell itself. A caller
  that re-validates an occupied cell clears it first, as validatePuzzle does; on a grid
  without conflicts the check of the cleared cell then succeeds.
\<close>

theorem isValidMove_own_value:
  assumes "wf_grid g" "row < 9" "col < 9" "g ! row ! col = v" "v \<noteq> 0"
  shows "\<not> isValidMove g row col v \<and>
         (in_range g \<and> consistent g \<longrightarrow> isValidMove (set_cell g row col 0) row col v)"
proof
  from assms(1-4) have "cell_is g row col v" by simp
  with assms(2,3) show "\<not> isValidMove g row col v" by (rule isValidMove_occupied)
next
  show "in_range g \<and> consistent g \<longrightarrow> isValidMove (set_cell g row col 0) row col v"
  proof
    assume "in_range g \<and> consistent g"
    with assms(1) have "pcons g" by (simp add: consistent_pcons)
    with assms show "isValidMove (set_cell g row col 0) row col v"
      using cleared_valid [of g row col] by simp
  qed
qed

theorem isValidMove_own_value_witness:
  "wf_grid canonical \<and> canonical ! 0 ! 0 = 5 \<and> in_range canonical \<and> consistent canonical \<and>
   \<not> isValidMove canonical 0 0 5 \<and> isValidMove (set_cell canonical 0 0 0) 0 0 5"
proof -
  have h: "wf_grid canonical" "canonical ! 0 ! 0 = 5" "in_range canonical" "consistent canonical"
    by code_simp+
  have "(0::nat) < 9" "(5::nat) \<noteq> 0" by simp_all
  from isValidMove_own_value [OF h(1) this(1) this(1) h(2) this(2)] h show ?thesis by simp
qed

subsection \<open>validatePuzzle\<close>

text \<open>
  C3: for every complete grid that satisfies the row, column and box invariants (each
  value 1..9 exactly once per unit), and so for every solution that generatePuzzle
  returns and for the solved grid of the spec's scenario, validatePuzzle returns
  isValid = true with an empty list of errors, and isComplete returns true.
\<close>

theorem complete_grid_validates:
  assumes "solved g \<or> (\<exists>arg e rs p st. generatePuzzle arg e rs = (Inr p, st) \<and> g = puzzle_solution p)"
  shows "validatePuzzle g = (\<lparr>isValid = True, errors = []\<rparr>, g) \<and> isComplete g"
proof -
  from assms have "solved g" using generatePuzzle_solution_solved by blast
  then have g: "wf_grid g" "filled g" "pcons g" by (simp_all add: solved_iff)
  have v: "violations g cells = []" using g(1,3) by (rule violations_solved)
  then have 1: "validatePuzzle g = (\<lparr>isValid = True, errors = []\<rparr>, g)"
    by (simp add: validatePuzzle_eq)
  moreover have "isComplete g"
    unfolding isComplete_def using no_empty_filled [OF g(1,2)] 1 by simp
  ultimately show ?thesis by simp
qed

theorem complete_grid_validates_witness:
  "solved canonical \<and> validatePuzzle canonical = (\<lparr>isValid = True, errors = []\<rparr>, canonical) \<and>
   isComplete canonical \<and>
   (\<exists>p st. generatePuzzle (Some ''easy'') new_engine zero_rng = (Inr p, st) \<and>
      validatePuzzle (puzzle_solution p) = (\<lparr>isValid = True, errors = []\<rparr>, puzzle_solution p) \<and>
      isComplete (puzzle_solution p))"
proof -
  have h: "solved canonical" by code_simp
  then have c: "solved canonical \<or> (\<exists>arg e rs p st. generatePuzzle arg e rs = (Inr p, st) \<and> canonical = puzzle_solution p)"
    by simp
  have "difficultySettings ''easy'' = Some 45" by (simp add: difficultySettings_def)
  moreover obtain g' a r rs' where "createPuzzle_loop (81 - 45) (grid (generated ''easy'' new_engine zero_rng)) 0 0
           (snd (generateCompleteGrid (new_engine\<lparr>difficulty := ''easy''\<rparr>) zero_rng)) = ((g', a, r), rs')"
    by (metis prod_cases3 surj_pair)
  ultimately obtain p st where p: "generatePuzzle (Some ''easy'') new_engine zero_rng = (Inr p, st)"
    using generatePuzzle_known by blast
  then have "solved (puzzle_solution p) \<or>
     (\<exists>arg e rs q st. generatePuzzle arg e rs = (Inr q, st) \<and> puzzle_solution p = puzzle_solution q)"
    by blast
  from complete_grid_validates [OF this] complete_grid_validates [OF c] h p show ?thesis by blast
qed

text \<open>
  C9: validatePuzzle writes every cell it clears back, whatever the check says, so the
  grid after the call is the grid before it, and a second call on it returns the same
  result.
\<close>

theorem validatePuzzle_restores_grid:
  assumes "wf_grid g"
  shows "snd (validatePuzzle g) = g \<and>
         (\<forall>rc\<in>set cells. \<forall>errs. fst (validate_cell rc (g, errs)) = g) \<and>
         fst (validatePuzzle (snd (validatePuzzle g))) = fst (validatePuzzle g)"
  by (simp add: validatePuzzle_eq validate_cell_grid)

theorem validatePuzzle_restores_grid_witness:
  "wf_grid conflicting \<and> \<not> isValid (fst (validatePuzzle conflicting)) \<and>
   snd (validatePuzzle conflicting) = conflicting \<and>
   fst (validate_cell (0, 0) (conflicting, [])) = conflicting \<and>
   fst (validatePuzzle (snd (validatePuzzle conflicting))) = fst (validatePuzzle conflicting)"
proof -
  have h: "wf_grid conflicting" by code_simp
  have e: "\<not> isValid (fst (validatePuzzle conflicting))" by code_simp
  have c: "(0, 0) \<in> set cells" by (simp add: cells_set)
  from validatePuzzle_restores_grid [OF h] h e c show ?thesis by blast
qed

subsection \<open>getHint\<close>

definition hint_grid :: grid where
  "hint_grid = set_cell (set_cell (set_cell canonical 0 0 0) 8 7 9) 8 8 0"

definition three_solutions :: grid where
  "three_solutions =
     set_cell (set_cell (set_cell (set_cell (set_cell (set_cell (set_cell canonical 5 3 0) 5 5 0) 6 3 0) 6 8 0) 7 3 0) 7 5 0) 7 8 0"

definition zero_grid :: grid where
  "zero_grid = set_cell (set_cell canonical 8 7 9) 8 8 0"

definition canonical_engine :: "grid \<Rightarrow> engine" where
  "canonical_engine g = \<lparr>grid = g, solution = canonical, initialGrid = g, difficulty = ''medium''\<rparr>"

text \<open>
  C6, as stated, fails: the scan stops at the first cell with exactly one possible value,
  so a later empty cell with no possible value at all is not chosen. In \<open>hint_grid\<close> the
  cell (0, 0) has one possible value and is returned, while the empty cell (8, 8) has none.
\<close>

theorem getHint_not_fewest:
  "getHint (canonical_engine hint_grid) hint_grid = Some \<lparr>hint_row = 0, hint_col = 0, hint_value = 5\<rparr> \<and>
   cell_is hint_grid 8 8 0 \<and>
   length (getPossibleValues hint_grid 0 0) = 1 \<and>
   length (getPossibleValues hint_grid 8 8) = 0"
  by code_simp

text \<open>
  C6, amended: getHint returns null exactly when the grid has no empty cell. When some
  empty cell has at most one possible value, getHint returns the first such cell of the
  row-major scan (the scan stops at a cell with exactly one possible value, and nothing
  replaces a cell with none). Otherwise it returns the empty cell with the fewest
  possible values, the first of the scan among those with the fewest. In both cases the
  value is the one the stored solution has at that cell.
\<close>

theorem getHint_cell:
  assumes "wf_grid g"
  shows "(getHint e g = None) = (emptyCells g = []) \<and>
         (\<forall>p. find (\<lambda>q. possibilities g q \<le> 1) (emptyCells g) = Some p \<longrightarrow>
            fst p < 9 \<and> snd p < 9 \<and> g ! fst p ! snd p = 0 \<and>
            getHint e g = Some \<lparr>hint_row = fst p, hint_col = snd p, hint_value = solution e ! fst p ! snd p\<rparr>) \<and>
         (emptyCells g \<noteq> [] \<and> find (\<lambda>q. possibilities g q \<le> 1) (emptyCells g) = None \<longrightarrow>
            (\<exists>pre p post. emptyCells g = pre @ [p] @ post \<and>
               fst p < 9 \<and> snd p < 9 \<and> g ! fst p ! snd p = 0 \<and>
               getHint e g = Some \<lparr>hint_row = fst p, hint_col = snd p, hint_value = solution e ! fst p ! snd p\<rparr> \<and>
               (\<forall>q\<in>set pre. possibilities g p < possibilities g q) \<and>
               (\<forall>q\<in>set post. possibilities g p \<le> possibilities g q)))"
proof -
  have shape: "fst p < 9 \<and> snd p < 9 \<and> g ! fst p ! snd p = 0" if "p \<in> set (emptyCells g)" for p
  proof -
    from that have "fst p < 9 \<and> snd p < 9 \<and> cell_is g (fst p) (snd p) 0"
      by (auto simp: emptyCells_def cells_set)
    then show ?thesis by (simp add: cell_is_def)
  qed
  have 1: "(getHint e g = None) = (emptyCells g = [])" by (rule getHint_None)
  have 2: "fst p < 9 \<and> snd p < 9 \<and> g ! fst p ! snd p = 0 \<and>
        getHint e g = Some \<lparr>hint_row = fst p, hint_col = snd p, hint_value = solution e ! fst p ! snd p\<rparr>"
    if f: "find (\<lambda>q. possibilities g q \<le> 1) (emptyCells g) = Some p" for p
  proof -
    from f have "p \<in> set (emptyCells g)" unfolding find_Some_iff by (metis nth_mem)
    from shape [OF this] getHint_short [OF f, of e] show ?thesis by simp
  qed
  have 3: "\<exists>pre p post. emptyCells g = pre @ [p] @ post \<and>
               fst p < 9 \<and> snd p < 9 \<and> g ! fst p ! snd p = 0 \<and>
               getHint e g = Some \<lparr>hint_row = fst p, hint_col = snd p, hint_value = solution e ! fst p ! snd p\<rparr> \<and>
               (\<forall>q\<in>set pre. possibilities g p < possibilities g q) \<and>
               (\<forall>q\<in>set post. possibilities g p \<le> possibilities g q)"
    if a: "emptyCells g \<noteq> [] \<and> find (\<lambda>q. possibilities g q \<le> 1) (emptyCells g) = None"
  proof -
    from a have ne: "emptyCells g \<noteq> []" and fn: "find (\<lambda>q. possibilities g q \<le> 1) (emptyCells g) = None"
      by simp_all
    from getHint_fewest [OF ne fn, of e]
    obtain pre p post where b: "emptyCells g = pre @ [p] @ post"
      "getHint e g = Some \<lparr>hint_row = fst p, hint_col = snd p, hint_value = solution e ! fst p ! snd p\<rparr>"
      "\<forall>q\<in>set pre. possibilities g p < possibilities g q"
      "\<forall>q\<in>set post. possibilities g p \<le> possibilities g q" by blast
    from b(1) have "p \<in> set (emptyCells g)" by simp
    from shape [OF this] b show ?thesis by blast
  qed
  from 1 2 3 show ?thesis by blast
qed

theorem getHint_cell_witness:
  "wf_grid hint_grid \<and> emptyCells hint_grid = [(0, 0), (8, 8)] \<and>
   possibilities hint_grid (0, 0) = 1 \<and> possibilities hint_grid (8, 8) = 0 \<and>
   find (\<lambda>q. possibilities hint_grid q \<le> 1) (emptyCells hint_grid) = Some (0, 0) \<and>
   getHint (canonical_engine hint_grid) hint_grid = Some \<lparr>hint_row = 0, hint_col = 0, hint_value = 5\<rparr> \<and>
   wf_grid three_solutions \<and>
   find (\<lambda>q. possibilities three_solutions q \<le> 1) (emptyCells three_solutions) = None \<and>
   (\<exists>pre p post. emptyCells three_solutions = pre @ [p] @ post \<and>
      fst p < 9 \<and> snd p < 9 \<and> three_solutions ! fst p ! snd p = 0 \<and>
      getHint (canonical_engine three_solutions) three_solutions =
        Some \<lparr>hint_row = fst p, hint_col = snd p,
              hint_value = solution (canonical_engine three_solutions) ! fst p ! snd p\<rparr> \<and>
      (\<forall>q\<in>set pre. possibilities three_solutions p < possibilities three_solutions q) \<and>
      (\<forall>q\<in>set post. possibilities three_solutions p \<le> possibilities three_solutions q))"
proof -
  have h: "wf_grid hint_grid" "wf_grid three_solutions" by code_simp+
  have e: "emptyCells hint_grid = [(0, 0), (8, 8)]"
    "possibilities hint_grid (0, 0) = 1" "possibilities hint_grid (8, 8) = 0" by code_simp+
  have f: "find (\<lambda>q. possibilities hint_grid q \<le> 1) (emptyCells hint_grid) = Some (0, 0)"
    by (simp add: e)
  have s: "solution (canonical_engine hint_grid) ! 0 ! 0 = 5" by code_simp
  have t: "emptyCells three_solutions \<noteq> []"
    "find (\<lambda>q. possibilities three_solutions q \<le> 1) (emptyCells three_solutions) = None" by code_simp+
  from getHint_cell [OF h(1), of "canonical_engine hint_grid"] f s
  have 1: "getHint (canonical_engine hint_grid) hint_grid = Some \<lparr>hint_row = 0, hint_col = 0, hint_value = 5\<rparr>"
    by simp
  from getHint_cell [OF h(2), of "canonical_engine three_solutions"] t
  have 2: "\<exists>pre p post. emptyCells three_solutions = pre @ [p] @ post \<and>
      fst p < 9 \<and> snd p < 9 \<and> three_solutions ! fst p ! snd p = 0 \<and>
      getHint (canonical_engine three_solutions) three_solutions =
        Some \<lparr>hint_row = fst p, hint_col = snd p,
              hint_value = solution (canonical_engine three_solutions) ! fst p ! snd p\<rparr> \<and>
      (\<forall>q\<in>set pre. possibilities three_solutions p < possibilities three_solutions q) \<and>
      (\<forall>q\<in>set post. possibilities three_solutions p \<le> possibilities three_solutions q)"
    by blast
  from h e f 1 t(2) 2 show ?thesis by (intro conjI)
qed

text \<open>
  C10: whenever the grid has an empty cell, getHint returns a hint for an empty cell, and
  the hint's value is what the stored solution holds at that cell, whatever the grid
  holds elsewhere and whatever the engine's solution is. Nothing checks the value against
  the grid: in \<open>zero_grid\<close> the only empty cell has no legal value, and the hint for it
  repeats a value of its row.
\<close>

theorem getHint_always_answers:
  assumes "wf_grid g" "row < 9" "col < 9" "g ! row ! col = 0"
  shows "(\<exists>h. getHint e g = Some h \<and> hint_row h < 9 \<and> hint_col h < 9 \<and>
              g ! hint_row h ! hint_col h = 0 \<and>
              hint_value h = solution e ! hint_row h ! hint_col h) \<and>
         (\<exists>e' g' h'. wf_grid g' \<and> getHint e' g' = Some h' \<and>
              getPossibleValues g' (hint_row h') (hint_col h') = [] \<and>
              \<not> isValidMove g' (hint_row h') (hint_col h') (hint_value h'))"
proof
  from assms have "(row, col) \<in> set (emptyCells g)"
    by (simp add: emptyCells_def cells_set)
  then have ne: "emptyCells g \<noteq> []" by auto
  from getHint_Some [OF this, of e]
  obtain pre p post where b: "emptyCells g = pre @ [p] @ post"
    "getHint e g = Some \<lparr>hint_row = fst p, hint_col = snd p, hint_value = solution e ! fst p ! snd p\<rparr>"
    by blast
  from b(1) have "p \<in> set (emptyCells g)" by simp
  then have "fst p < 9 \<and> snd p < 9 \<and> cell_is g (fst p) (snd p) 0"
    by (auto simp: emptyCells_def cells_set)
  then have "fst p < 9 \<and> snd p < 9 \<and> g ! fst p ! snd p = 0" by (simp add: cell_is_def)
  with b(2) show "\<exists>h. getHint e g = Some h \<and> hint_row h < 9 \<and> hint_col h < 9 \<and>
              g ! hint_row h ! hint_col h = 0 \<and>
              hint_value h = solution e ! hint_row h ! hint_col h" by simp
next
  have "wf_grid zero_grid \<and>
        getHint (canonical_engine zero_grid) zero_grid = Some \<lparr>hint_row = 8, hint_col = 8, hint_value = 9\<rparr> \<and>
        getPossibleValues zero_grid 8 8 = [] \<and> \<not> isValidMove zero_grid 8 8 9"
    by code_simp
  then show "\<exists>e' g' h'. wf_grid g' \<and> getHint e' g' = Some h' \<and>
              getPossibleValues g' (hint_row h') (hint_col h') = [] \<and>
              \<not> isValidMove g' (hint_row h') (hint_col h') (hint_value h')"
    by (intro exI [of _ "canonical_engine zero_grid"] exI [of _ zero_grid]
              exI [of _ "\<lparr>hint_row = 8, hint_col = 8, hint_value = 9\<rparr>"]) simp
qed

theorem getHint_always_answers_witness:
  "wf_grid zero_grid \<and> zero_grid ! 8 ! 8 = 0 \<and> zero_grid ! 8 ! 7 = 9 \<and>
   (\<exists>h. getHint (canonical_engine zero_grid) zero_grid = Some h \<and> hint_row h < 9 \<and> hint_col h < 9 \<and>
        zero_grid ! hint_row h ! hint_col h = 0 \<and>
        hint_value h = solution (canonical_engine zero_grid) ! hint_row h ! hint_col h) \<and>
   getHint (canonical_engine zero_grid) zero_grid = Some \<lparr>hint_row = 8, hint_col = 8, hint_value = 9\<rparr> \<and>
   getPossibleValues zero_grid 8 8 = []"
proof -
  have h: "wf_grid zero_grid" "zero_grid ! 8 ! 8 = 0" "zero_grid ! 8 ! 7 = 9" by code_simp+
  have v: "getHint (canonical_engine zero_grid) zero_grid = Some \<lparr>hint_row = 8, hint_col = 8, hint_value = 9\<rparr>"
     "getPossibleValues zero_grid 8 8 = []" by code_simp+
  have "(8::nat) < 9" by simp
  from getHint_always_answers [OF h(1) this this h(2), of "canonical_engine zero_grid"] h v
  show ?thesis by blast
qed

subsection \<open>hasUniqueSolution\<close>






subsection \<open>solveCurrentPuzzle\<close>

definition conflicting_open :: grid where
  "conflicting_open = set_cell conflicting 8 8 0"

text \<open>
  C5: the code does not do what the claim says on grids whose filled cells conflict. The
  claim, the docstring of solvePuzzleWithSteps (\<^verbatim>\<open>@returns True if solved, false if unsolvable\<close>)
  and the testing guide (which expects \<^verbatim>\<open>false\<close> from the solver on a grid whose first row
  holds 1 nine times) ask for a failure there. No solver of the engine looks at the cells
  that are already filled. On the full grid \<open>conflicting\<close> (the solved grid of the spec
  with cell (0, 0) changed from 5 to 3, so that row 0 holds 3 twice) findEmptyCell finds
  no empty cell, and solveCurrentPuzzle returns success = true with the grid itself as
  the solution. On \<open>conflicting_open\<close>, the same grid with cell (8, 8) emptied, it places
  9 at (8, 8) and returns the same result. Neither grid has a completion.
\<close>

theorem solveCurrentPuzzle_accepts_conflicts:
  "wf_grid conflicting \<and> in_range conflicting \<and> emptyCells conflicting = [] \<and>
   \<not> (\<exists>s. completion conflicting s) \<and>
   solveCurrentPuzzle (canonical_engine conflicting) =
     \<lparr>success = True, solved_grid = Some conflicting, place_steps = []\<rparr> \<and>
   wf_grid conflicting_open \<and> in_range conflicting_open \<and> emptyCells conflicting_open = [(8, 8)] \<and>
   \<not> (\<exists>s. completion conflicting_open s) \<and>
   solveCurrentPuzzle (canonical_engine conflicting_open) =
     \<lparr>success = True, solved_grid = Some conflicting,
      place_steps = [\<lparr>step_row = 8, step_col = 8, step_value = 9, step_type = ''place''\<rparr>]\<rparr>"
proof -
  have "\<not> consistent conflicting" "\<not> consistent conflicting_open" by code_simp+
  with completion_consistent have "\<not> (\<exists>s. completion conflicting s)" "\<not> (\<exists>s. completion conflicting_open s)"
    by blast+
  moreover have "wf_grid conflicting" "in_range conflicting" "emptyCells conflicting = []"
    "wf_grid conflicting_open" "in_range conflicting_open" "emptyCells conflicting_open = [(8, 8)]"
    by code_simp+
  moreover have "solveCurrentPuzzle (canonical_engine conflicting) =
     \<lparr>success = True, solved_grid = Some conflicting, place_steps = []\<rparr>" by code_simp
  moreover have "solveCurrentPuzzle (canonical_engine conflicting_open) =
     \<lparr>success = True, solved_grid = Some conflicting,
      place_steps = [\<lparr>step_row = 8, step_col = 8, step_value = 9, step_type = ''place''\<rparr>]\<rparr>" by code_simp
  ultimately show ?thesis by (intro conjI)
qed

text \<open>
  C5, the failing inputs in general: every engine whose grid is a full 9x9 grid with
  values in 0..9 that holds a conflict. The grid has no completion, and
  solveCurrentPuzzle returns success = true with that grid as the solution and no step.
\<close>

theorem solveCurrentPuzzle_full_grid:
  assumes "wf_grid (grid e)" "in_range (grid e)" "emptyCells (grid e) = []" "\<not> consistent (grid e)"
  shows "\<not> (\<exists>s. completion (grid e) s) \<and>
         solveCurrentPuzzle e = \<lparr>success = True, solved_grid = Some (grid e), place_steps = []\<rparr>"
proof -
  from assms(3) have "findEmptyCell (grid e) = None" by (simp add: findEmptyCell_None)
  then have "solvePuzzleWithSteps (grid e) [] = (Some (grid e), [])"
    by (subst solvePuzzleWithSteps.simps) simp
  then have "solveCurrentPuzzle e = \<lparr>success = True, solved_grid = Some (grid e), place_steps = []\<rparr>"
    by (simp add: solveCurrentPuzzle_def)
  moreover from assms(4) completion_consistent have "\<not> (\<exists>s. completion (grid e) s)" by blast
  ultimately show ?thesis by simp
qed

theorem solveCurrentPuzzle_full_grid_witness:
  "wf_grid conflicting \<and> in_range conflicting \<and>
   emptyCells conflicting = [] \<and> \<not> consistent conflicting \<and>
   \<not> (\<exists>s. completion conflicting s) \<and>
   success (solveCurrentPuzzle (canonical_engine conflicting)) \<and>
   solved_grid (solveCurrentPuzzle (canonical_engine conflicting)) = Some conflicting"
proof -
  have g: "grid (canonical_engine conflicting) = conflicting" by (simp add: canonical_engine_def)
  have h: "wf_grid (grid (canonical_engine conflicting))" "in_range (grid (canonical_engine conflicting))"
    "emptyCells (grid (canonical_engine conflicting)) = []"
    "\<not> consistent (grid (canonical_engine conflicting))" by code_simp+
  from solveCurrentPuzzle_full_grid [OF h] h show ?thesis unfolding g by simp
qed

subsection \<open>generatePuzzle\<close>

text \<open>
  C8: for each of the four difficulties the removal loop of createPuzzle, started on the
  generated complete grid, makes at most 1000 attempts and commits at most 81 - clues
  removals; the puzzle's grid has 81 minus the committed removals clues, which is at least
  the target of the difficulty (easy 45, medium 35, hard 25, expert 17), and exactly the
  target when the loop ends with attempts to spare.
\<close>

theorem createPuzzle_clue_count:
  assumes "d \<in> set [''easy'', ''medium'', ''hard'', ''expert'']"
  shows "\<exists>clues p e' rs' attempts removed.
           difficultySettings d = Some clues \<and>
           generatePuzzle (Some d) e rs = (Inr p, e', rs') \<and>
           createPuzzle_loop (81 - clues) (puzzle_solution p) 0 0
               (snd (generateCompleteGrid (e\<lparr>difficulty := d\<rparr>) rs))
             = ((puzzle_grid p, attempts, removed), rs') \<and>
           attempts \<le> 1000 \<and> removed \<le> 81 - clues \<and>
           clue_count (puzzle_grid p) = 81 - removed \<and>
           clues \<le> clue_count (puzzle_grid p) \<and>
           (attempts < 1000 \<longrightarrow> clue_count (puzzle_grid p) = clues) \<and>
           difficultySettings ''easy'' = Some 45 \<and> difficultySettings ''medium'' = Some 35 \<and>
           difficultySettings ''hard'' = Some 25 \<and> difficultySettings ''expert'' = Some 17"
proof -
  from known_difficulty [OF assms] obtain clues where c: "difficultySettings d = Some clues" "clues \<le> 81"
    by blast
  let ?sol = "grid (generated d e rs)"
  let ?rs2 = "snd (generateCompleteGrid (e\<lparr>difficulty := d\<rparr>) rs)"
  obtain g' attempts removed rs' where l: "createPuzzle_loop (81 - clues) ?sol 0 0 ?rs2 = ((g', attempts, removed), rs')"
    by (metis prod_cases3 surj_pair)
  let ?p = "\<lparr>puzzle_grid = g', puzzle_solution = ?sol, puzzle_difficulty = d\<rparr>"
  have sv: "solved ?sol" using generated_props [of d e rs] by simp
  then have wf: "wf_grid ?sol" and n: "clue_count ?sol = 81"
    by (simp_all add: solved_iff clue_count_filled)
  from createPuzzle_loop_counts [OF wf l] n
  have k: "attempts \<le> 1000" "removed \<le> 81 - clues" "clue_count g' + removed = 81"
    "attempts < 1000 \<longrightarrow> removed = 81 - clues" by simp_all
  from k(2,3) c(2) have k5: "clue_count g' = 81 - removed" "clues \<le> clue_count g'" by simp_all
  from k(3,4) c(2) have k6: "attempts < 1000 \<longrightarrow> clue_count g' = clues" by auto
  have gp: "generatePuzzle (Some d) e rs = (Inr ?p, (generated d e rs)\<lparr>grid := g', initialGrid := g'\<rparr>, rs')"
    using generatePuzzle_known [OF c(1) l] .
  have tab: "difficultySettings ''easy'' = Some 45 \<and> difficultySettings ''medium'' = Some 35 \<and>
           difficultySettings ''hard'' = Some 25 \<and> difficultySettings ''expert'' = Some 17"
    by (simp add: difficultySettings_def)
  show ?thesis
    by (rule exI [of _ clues], rule exI [of _ ?p],
        rule exI [of _ "(generated d e rs)\<lparr>grid := g', initialGrid := g'\<rparr>"], rule exI [of _ rs'],
        rule exI [of _ attempts], rule exI [of _ removed])
       (use c(1) gp l k(1,2) k5 k6 tab in simp)
qed

theorem createPuzzle_clue_count_witness:
  "''expert'' \<in> set [''easy'', ''medium'', ''hard'', ''expert''] \<and>
   (\<exists>clues p e' rs' attempts removed.
           difficultySettings ''expert'' = Some clues \<and>
           generatePuzzle (Some ''expert'') new_engine zero_rng = (Inr p, e', rs') \<and>
           createPuzzle_loop (81 - clues) (puzzle_solution p) 0 0
               (snd (generateCompleteGrid (new_engine\<lparr>difficulty := ''expert''\<rparr>) zero_rng))
             = ((puzzle_grid p, attempts, removed), rs') \<and>
           attempts \<le> 1000 \<and> removed \<le> 81 - clues \<and>
           clue_count (puzzle_grid p) = 81 - removed \<and>
           clues \<le> clue_count (puzzle_grid p) \<and>
           (attempts < 1000 \<longrightarrow> clue_count (puzzle_grid p) = clues) \<and>
           difficultySettings ''easy'' = Some 45 \<and> difficultySettings ''medium'' = Some 35 \<and>
           difficultySettings ''hard'' = Some 25 \<and> difficultySettings ''expert'' = Some 17)"
proof -
  have h: "''expert'' \<in> set [''easy'', ''medium'', ''hard'', ''expert'']" by simp
  from createPuzzle_clue_count [OF h, of new_engine zero_rng] h show ?thesis by (intro conjI)
qed

text \<open>
  C1: for each of the four difficulties, generatePuzzle returns a puzzle whose solution is
  a solved grid and the only completion of the puzzle's grid; every filled cell of the
  grid holds the value of the solution, and hasUniqueSolution is true of the grid the
  engine holds after the call.
\<close>

theorem generatePuzzle_unique_solution:
  assumes "d \<in> set [''easy'', ''medium'', ''hard'', ''expert'']"
  shows "\<exists>p e' rs'. generatePuzzle (Some d) e rs = (Inr p, e', rs') \<and> puzzle_difficulty p = d \<and>
           solved (puzzle_solution p) \<and>
           completion (puzzle_grid p) (puzzle_solution p) \<and>
           (\<forall>s. completion (puzzle_grid p) s \<longrightarrow> s = puzzle_solution p) \<and>
           hasUniqueSolution (puzzle_grid p) \<and>
           (\<forall>row<9. \<forall>col<9. puzzle_grid p ! row ! col \<noteq> 0 \<longrightarrow>
               puzzle_grid p ! row ! col = puzzle_solution p ! row ! col) \<and>
           grid e' = puzzle_grid p \<and> solution e' = puzzle_solution p"
proof -
  from known_difficulty [OF assms] obtain clues where c: "difficultySettings d = Some clues" by blast
  define sol where "sol = grid (generated d e rs)"
  define rs2 where "rs2 = snd (generateCompleteGrid (e\<lparr>difficulty := d\<rparr>) rs)"
  obtain g' attempts removed rs' where l: "createPuzzle_loop (81 - clues) sol 0 0 rs2 = ((g', attempts, removed), rs')"
    by (metis prod_cases3 surj_pair)
  define p where "p = \<lparr>puzzle_grid = g', puzzle_solution = sol, puzzle_difficulty = d\<rparr>"
  define e' where "e' = (generated d e rs)\<lparr>grid := g', initialGrid := g'\<rparr>"
  have sv: "solved sol" and so: "solution (generated d e rs) = sol"
    using generated_props [of d e rs] by (simp_all add: sol_def)
  from createPuzzle_loop_unique [OF sv l]
  have g': "wf_grid g'" "hasUniqueSolution g'" "subgrid g' sol" by simp_all
  have pg: "puzzle_grid p = g'" "puzzle_solution p = sol" "puzzle_difficulty p = d" by (simp_all add: p_def)
  have eg: "grid e' = g'" "solution e' = sol" by (simp_all add: e'_def so)
  have gp: "generatePuzzle (Some d) e rs = (Inr p, e', rs')"
    using generatePuzzle_known [OF c l [unfolded sol_def rs2_def]] by (simp add: p_def e'_def sol_def)
  have "generatePuzzle (Some d) e rs = (Inr p, e', rs') \<and> puzzle_difficulty p = d \<and>
           solved (puzzle_solution p) \<and>
           completion (puzzle_grid p) (puzzle_solution p) \<and>
           (\<forall>s. completion (puzzle_grid p) s \<longrightarrow> s = puzzle_solution p) \<and>
           hasUniqueSolution (puzzle_grid p) \<and>
           (\<forall>row<9. \<forall>col<9. puzzle_grid p ! row ! col \<noteq> 0 \<longrightarrow>
               puzzle_grid p ! row ! col = puzzle_solution p ! row ! col) \<and>
           grid e' = puzzle_grid p \<and> solution e' = puzzle_solution p"
    unfolding pg eg
    using gp sv unique_is_solution [OF sv g'] g'(2) subgrid_cells [OF g'(3)] by (intro conjI) blast+
  then show ?thesis by blast
qed

theorem generatePuzzle_unique_solution_witness:
  "''easy'' \<in> set [''easy'', ''medium'', ''hard'', ''expert''] \<and>
   (\<exists>p e' rs'. generatePuzzle (Some ''easy'') new_engine zero_rng = (Inr p, e', rs') \<and> puzzle_difficulty p = ''easy'' \<and>
           solved (puzzle_solution p) \<and>
           completion (puzzle_grid p) (puzzle_solution p) \<and>
           (\<forall>s. completion (puzzle_grid p) s \<longrightarrow> s = puzzle_solution p) \<and>
           hasUniqueSolution (puzzle_grid p) \<and>
           (\<forall>row<9. \<forall>col<9. puzzle_grid p ! row ! col \<noteq> 0 \<longrightarrow>
               puzzle_grid p ! row ! col = puzzle_solution p ! row ! col) \<and>
           grid e' = puzzle_grid p \<and> solution e' = puzzle_solution p)"
proof -
  have h: "''easy'' \<in> set [''easy'', ''medium'', ''hard'', ''expert'']" by simp
  from generatePuzzle_unique_solution [OF h, of new_engine zero_rng] h show ?thesis by (intro conjI)
qed

text \<open>
  C4, as stated, fails: an unrecognised difficulty is only noticed in createPuzzle, when
  the lookup in \<^verbatim>\<open>difficultySettings\<close> yields \<^verbatim>\<open>undefined\<close>. By then generatePuzzle has
  stored the tag, generated the complete grid and copied it into the solution. A tag
  that names a property which every object inherits (\<^verbatim>\<open>constructor\<close>) is not rejected
  at all.
\<close>

theorem generatePuzzle_no_fail_fast:
  "fst (generatePuzzle (Some ''invalid'') new_engine zero_rng) = Inl TypeError \<and>
   difficulty (fst (snd (generatePuzzle (Some ''invalid'') new_engine zero_rng))) = ''invalid'' \<and>
   solved (grid (fst (snd (generatePuzzle (Some ''invalid'') new_engine zero_rng)))) \<and>
   solved (solution (fst (snd (generatePuzzle (Some ''invalid'') new_engine zero_rng)))) \<and>
   \<not> solved (grid new_engine) \<and> \<not> solved (solution new_engine) \<and> difficulty new_engine = ''medium'' \<and>
   fst (generatePuzzle (Some ''constructor'') new_engine zero_rng) \<noteq> Inl TypeError"
proof -
  have n: "difficultySettings ''invalid'' = None" "''invalid'' \<notin> set object_prototype_keys"
    by (simp_all add: difficultySettings_def object_prototype_keys_def)
  have c: "difficultySettings ''constructor'' = None" "''constructor'' \<in> set object_prototype_keys"
    by (simp_all add: difficultySettings_def object_prototype_keys_def)
  have e: "\<not> solved (grid new_engine)" "\<not> solved (solution new_engine)" "difficulty new_engine = ''medium''"
    by code_simp+
  from generatePuzzle_unknown [OF n, of new_engine zero_rng] generatePuzzle_inherited [OF c, of new_engine zero_rng]
    generated_props [of "''invalid''" new_engine zero_rng] e
  show ?thesis by simp
qed

text \<open>
  C4, amended: for a tag that is neither one of the four difficulties nor the name of an
  inherited property, generatePuzzle throws a TypeError and returns no puzzle (it never
  falls back to a default difficulty); it throws in createPuzzle, after the engine has
  stored the tag, generated a complete grid and copied it into its solution.
\<close>

theorem generatePuzzle_unknown_difficulty:
  assumes "d \<notin> set [''easy'', ''medium'', ''hard'', ''expert'']" "d \<notin> set object_prototype_keys"
  shows "\<exists>e'. generatePuzzle (Some d) e rs =
           (Inl TypeError, e', snd (generateCompleteGrid (e\<lparr>difficulty := d\<rparr>) rs)) \<and>
         e' = (fst (generateCompleteGrid (e\<lparr>difficulty := d\<rparr>) rs))
                \<lparr>solution := grid (fst (generateCompleteGrid (e\<lparr>difficulty := d\<rparr>) rs))\<rparr> \<and>
         difficulty e' = d \<and> solved (grid e') \<and> solution e' = grid e' \<and> initialGrid e' = initialGrid e"
proof -
  from assms(1) have n: "difficultySettings d = None" by (rule unknown_difficulty)
  from generatePuzzle_unknown [OF n assms(2), of e rs] generated_props [of d e rs]
  show ?thesis by (simp add: generated_def Let_def)
qed

theorem generatePuzzle_unknown_difficulty_witness:
  "''invalid'' \<notin> set [''easy'', ''medium'', ''hard'', ''expert''] \<and>
   ''invalid'' \<notin> set object_prototype_keys \<and>
   (\<exists>e'. generatePuzzle (Some ''invalid'') new_engine zero_rng =
           (Inl TypeError, e', snd (generateCompleteGrid (new_engine\<lparr>difficulty := ''invalid''\<rparr>) zero_rng)) \<and>
         e' = (fst (generateCompleteGrid (new_engine\<lparr>difficulty := ''invalid''\<rparr>) zero_rng))
                \<lparr>solution := grid (fst (generateCompleteGrid (new_engine\<lparr>difficulty := ''invalid''\<rparr>) zero_rng))\<rparr> \<and>
         difficulty e' = ''invalid'' \<and> solved (grid e') \<and> solution e' = grid e' \<and>
         initialGrid e' = initialGrid new_engine)"
proof -
  have h: "''invalid'' \<notin> set [''easy'', ''medium'', ''hard'', ''expert'']"
    "''invalid'' \<notin> set object_prototype_keys"
    by (simp_all add: object_prototype_keys_def)
  from generatePuzzle_unknown_difficulty [OF h, of new_engine zero_rng] h show ?thesis by (intro conjI)
qed

end
